theory Spec2Isabelle
  imports Main "HOL-Library.Word"
begin

unbundle bit_operations_syntax

section \<open>Handles, pointers and constants\<close>

text \<open>
  Pointers and EGL handles are natural numbers; the null pointer and the
  \<open>EGL_NO_*\<close> handles are \<open>0\<close>, as in the C headers.
\<close>

type_synonym EGLImage = nat
type_synonym EGLStreamKHR = nat
type_synonym EGLSurface = nat
type_synonym EGLSyncKHR = nat
type_synonym EGLDisplay = nat
type_synonym EGLConfig = nat
type_synonym EGLint = int
type_synonym gbm_bo_ptr = nat

abbreviation EGL_NO_IMAGE_KHR :: EGLImage where "EGL_NO_IMAGE_KHR \<equiv> 0"
abbreviation EGL_NO_STREAM_KHR :: EGLStreamKHR where "EGL_NO_STREAM_KHR \<equiv> 0"
abbreviation EGL_NO_SURFACE :: EGLSurface where "EGL_NO_SURFACE \<equiv> 0"
abbreviation EGL_NO_SYNC_KHR :: EGLSyncKHR where "EGL_NO_SYNC_KHR \<equiv> 0"
abbreviation NULL :: nat where "NULL \<equiv> 0"
abbreviation EGL_TRUE :: EGLint where "EGL_TRUE \<equiv> 1"
abbreviation EGL_STREAM_BIT_KHR :: "32 word" where "EGL_STREAM_BIT_KHR \<equiv> 0x0800"
abbreviation MAX_STREAM_IMAGES :: nat where "MAX_STREAM_IMAGES \<equiv> 10"

text \<open>The stream consumer events the pump switches on; any other value is \<open>OtherEvent\<close>.\<close>

datatype EGLenum =
    EGL_STREAM_IMAGE_AVAILABLE_NV
  | EGL_STREAM_IMAGE_ADD_NV
  | EGL_STREAM_IMAGE_REMOVE_NV
  | OtherEvent nat

datatype EGLerror =
    EGL_SUCCESS
  | EGL_BAD_ALLOC
  | EGL_BAD_CONFIG
  | EGL_BAD_NATIVE_WINDOW
  | EGL_BAD_SURFACE

text \<open>
  A call either returns or stops the process: a failed \<open>assert\<close> (when the
  build does not define \<open>NDEBUG\<close>) or the dereference of a null pointer.
\<close>

datatype assertion =
    Assert_event   \<comment> \<open>line 153: unhandled stream consumer event\<close>
  | Assert_bo      \<comment> \<open>line 226: \<open>assert(bo)\<close>\<close>
  | Assert_planes  \<comment> \<open>line 243: \<open>assert(planes == 1)\<close>\<close>
  | Assert_img     \<comment> \<open>line 305: \<open>assert(img != EGL_NO_IMAGE_KHR)\<close>\<close>

datatype fault = AssertFailed assertion | NullDeref

datatype 'a outcome = Fault fault | Ret 'a

section \<open>The data model of \<open>gbm-surface.c\<close> and \<open>gbm-handle.h\<close>\<close>

datatype free_fn = FreeSurface_fn

datatype object_type = EGL_OBJECT_SURFACE_KHR | EGL_OBJECT_NONE

record GbmObject =
  free :: "free_fn option"
  dpy :: EGLDisplay
  type :: object_type
  refCount :: int

record slot =
  image :: EGLImage
  bo :: gbm_bo_ptr
  locked :: bool

record GbmSurface =
  base :: GbmObject
  stream :: EGLStreamKHR
  egl :: EGLSurface
  images :: "slot list"
  freeImages :: bool

text \<open>
  The native window \<open>struct gbm_surface\<close>: the fields of \<open>v0\<close> the code reads,
  and the private pointer that \<open>GetPrivPtr\<close> finds in front of the structure.
\<close>

record gbm_surface =
  v0_width :: nat
  v0_height :: nat
  v0_format :: nat
  v0_count :: nat
  v0_modifiers :: "64 word list"
  priv :: "GbmSurface option"

record gbm_import_fd_modifier_data =
  buf_width :: nat
  buf_height :: nat
  buf_format :: nat
  buf_num_fds :: nat
  buf_fd0 :: int
  buf_stride0 :: int
  buf_offset0 :: int
  buf_modifier :: "64 word"

section \<open>The collaborators\<close>

text \<open>
  Every call that leaves the file (the EGL dispatch table \<open>data->egl\<close>, libgbm, the
  handle registry, the allocator) is logged with its arguments and its result. The
  display argument \<open>devDpy\<close> is the same in every call and is left out.
\<close>

datatype call =
    QueryEvent EGLStreamKHR EGLint EGLenum EGLImage
  | CreateImage EGLStreamKHR EGLImage
  | DestroyImage EGLImage
  | BoDestroy gbm_bo_ptr
  | AcquireImage EGLStreamKHR EGLSyncKHR bool EGLImage
  | ReleaseImage EGLStreamKHR EGLImage EGLSyncKHR
  | ExportQuery EGLImage bool int int "64 word"
  | Export EGLImage bool int int int
  | BoImport gbm_import_fd_modifier_data gbm_bo_ptr
  | SetError EGLerror
  | RefHandle EGLDisplay bool
  | UnrefObject EGLDisplay
  | AddObject bool
  | GetConfigAttrib EGLConfig bool "32 word"
  | Calloc bool
  | FreeObj
  | CreateStream EGLStreamKHR
  | ConsumerConnect EGLStreamKHR nat "64 word list" bool
  | CreateProducerSurface EGLConfig EGLStreamKHR nat nat EGLSurface
  | DestroySurface EGLSurface
  | DestroyStream EGLStreamKHR

text \<open>
  The collaborators are deterministic but otherwise arbitrary: each answer is a function
  of the calls made so far and of the arguments. \<open>NDEBUG\<close> says whether the build
  compiles the assertions away.
\<close>

record env =
  NDEBUG :: bool
  QueryStreamConsumerEventNV :: "call list \<Rightarrow> EGLStreamKHR \<Rightarrow> EGLint \<times> EGLenum \<times> EGLImage"
  CreateImageKHR :: "call list \<Rightarrow> EGLStreamKHR \<Rightarrow> EGLImage"
  StreamAcquireImageNV :: "call list \<Rightarrow> EGLStreamKHR \<Rightarrow> bool \<times> EGLImage"
  ExportDMABUFImageQueryMESA :: "call list \<Rightarrow> EGLImage \<Rightarrow> bool \<times> int \<times> int \<times> 64 word"
  ExportDMABUFImageMESA :: "call list \<Rightarrow> EGLImage \<Rightarrow> bool \<times> int \<times> int \<times> int"
  gbm_bo_import :: "call list \<Rightarrow> gbm_import_fd_modifier_data \<Rightarrow> gbm_bo_ptr"
  eGbmRefHandle :: "call list \<Rightarrow> EGLDisplay \<Rightarrow> bool"
  egl_GetConfigAttrib :: "call list \<Rightarrow> EGLConfig \<Rightarrow> bool \<times> 32 word"
  calloc :: "call list \<Rightarrow> bool"
  CreateStreamKHR :: "call list \<Rightarrow> EGLStreamKHR"
  StreamImageConsumerConnectNV :: "call list \<Rightarrow> EGLStreamKHR \<Rightarrow> bool"
  CreateStreamProducerSurfaceKHR :: "call list \<Rightarrow> EGLConfig \<Rightarrow> EGLStreamKHR \<Rightarrow> EGLSurface"
  eGbmAddObject :: "call list \<Rightarrow> bool"

section \<open>The slot scans\<close>

text \<open>
  \<open>for (i = 0; i < ARRAY_LEN(surf->images); i++) if (P) { ...; break; }\<close>:
  the value of \<open>i\<close> when the loop is left, the first index from \<open>i\<close> on whose slot
  satisfies \<open>P\<close>, or \<open>MAX_STREAM_IMAGES\<close> when there is none.
\<close>

function slot_scan :: "(slot \<Rightarrow> bool) \<Rightarrow> slot list \<Rightarrow> nat \<Rightarrow> nat" where
  "slot_scan P xs i =
     (if i < MAX_STREAM_IMAGES then (if P (xs ! i) then i else slot_scan P xs (i + 1)) else i)"
  by pat_completeness auto
termination
  by (relation "measure (\<lambda>(P, xs, i). MAX_STREAM_IMAGES - i)") auto

declare slot_scan.simps [simp del]

definition GetSurf :: "gbm_surface option \<Rightarrow> GbmSurface option" where
  "GetSurf s = (case s of None \<Rightarrow> None | Some g \<Rightarrow> priv g)"

definition SetSurf :: "gbm_surface option \<Rightarrow> GbmSurface option \<Rightarrow> gbm_surface option" where
  "SetSurf s surf = (case s of None \<Rightarrow> None | Some g \<Rightarrow> Some (g\<lparr>priv := surf\<rparr>))"

section \<open>The image pool\<close>

definition AddSurfImage :: "env \<Rightarrow> call list \<Rightarrow> GbmSurface \<Rightarrow> call list \<times> GbmSurface \<times> bool" where
  "AddSurfImage e h surf =
     (let i = slot_scan (\<lambda>sl. image sl = EGL_NO_IMAGE_KHR \<and> bo sl = NULL) (images surf) 0 in
      if i < MAX_STREAM_IMAGES then
        (let img = CreateImageKHR e h (stream surf);
             h1 = h @ [CreateImage (stream surf) img];
             surf1 = surf\<lparr>images := (images surf)[i := (images surf ! i)\<lparr>image := img\<rparr>]\<rparr>
         in (h1, surf1, img \<noteq> EGL_NO_IMAGE_KHR))
      else (h, surf, False))"

definition RemoveSurfImage :: "call list \<Rightarrow> GbmSurface \<Rightarrow> EGLImage \<Rightarrow> call list \<times> GbmSurface" where
  "RemoveSurfImage h surf img =
     (let i = slot_scan (\<lambda>sl. image sl = img) (images surf) 0 in
      if i < MAX_STREAM_IMAGES then
        (let h1 = h @ [DestroyImage img];
             sl1 = (images surf ! i)\<lparr>image := EGL_NO_IMAGE_KHR\<rparr>
         in if \<not> locked sl1 \<and> bo sl1 \<noteq> NULL
            then (h1 @ [BoDestroy (bo sl1)],
                  surf\<lparr>images := (images surf)[i := sl1\<lparr>bo := NULL\<rparr>]\<rparr>)
            else (h1, surf\<lparr>images := (images surf)[i := sl1]\<rparr>))
      else (h, surf))"

section \<open>The event pump\<close>

text \<open>What one pass through the body of the \<open>do ... while\<close> loop ends with.\<close>

datatype loop_ctl = LoopBreak | LoopReturn bool | LoopAbort fault | LoopNext

definition PumpStep :: "env \<Rightarrow> call list \<Rightarrow> GbmSurface \<Rightarrow> call list \<times> GbmSurface \<times> loop_ctl" where
  "PumpStep e h surf =
     (case QueryStreamConsumerEventNV e h (stream surf) of (evStatus, event, aux) \<Rightarrow>
        let h1 = h @ [QueryEvent (stream surf) evStatus event aux] in
        if evStatus \<noteq> EGL_TRUE then (h1, surf, LoopBreak)
        else (case event of
            EGL_STREAM_IMAGE_AVAILABLE_NV \<Rightarrow> (h1, surf\<lparr>freeImages := True\<rparr>, LoopNext)
          | EGL_STREAM_IMAGE_ADD_NV \<Rightarrow>
              (case AddSurfImage e h1 surf of (h2, surf2, ok) \<Rightarrow>
                 if \<not> ok then (h2, surf2, LoopReturn False) else (h2, surf2, LoopNext))
          | EGL_STREAM_IMAGE_REMOVE_NV \<Rightarrow>
              (case RemoveSurfImage h1 surf aux of (h2, surf2) \<Rightarrow> (h2, surf2, LoopNext))
          | OtherEvent n \<Rightarrow>
              if NDEBUG e then (h1, surf, LoopNext) else (h1, surf, LoopAbort (AssertFailed Assert_event))))"

text \<open>
  The loop has no bound of its own: it runs for as long as the driver answers with
  add and remove events. \<open>None\<close> is the run that never leaves it.
\<close>

partial_function (option) PumpLoop ::
  "env \<Rightarrow> call list \<Rightarrow> GbmSurface \<Rightarrow> (call list \<times> GbmSurface \<times> bool outcome) option" where
  "PumpLoop e h surf =
     (case PumpStep e h surf of (h1, surf1, ctl) \<Rightarrow>
        (case ctl of
           LoopBreak \<Rightarrow> Some (h1, surf1, Ret True)
         | LoopReturn b \<Rightarrow> Some (h1, surf1, Ret b)
         | LoopAbort f \<Rightarrow> Some (h1, surf1, Fault f)
         | LoopNext \<Rightarrow>
             if \<not> freeImages surf1 then PumpLoop e h1 surf1 else Some (h1, surf1, Ret True)))"

definition PumpSurfEvents ::
  "env \<Rightarrow> call list \<Rightarrow> GbmSurface \<Rightarrow> (call list \<times> GbmSurface \<times> bool outcome) option" where
  "PumpSurfEvents e h surf = PumpLoop e h (surf\<lparr>freeImages := False\<rparr>)"

section \<open>The entry points of the native window\<close>

definition eGbmSurfaceHasFreeBuffers ::
  "env \<Rightarrow> call list \<Rightarrow> gbm_surface option \<Rightarrow> (call list \<times> gbm_surface option \<times> int outcome) option" where
  "eGbmSurfaceHasFreeBuffers e h s =
     (case GetSurf s of
        None \<Rightarrow> Some (h, s, Ret 0)
      | Some surf \<Rightarrow>
          if freeImages surf then Some (h, s, Ret 1)
          else (case PumpSurfEvents e h surf of
                  None \<Rightarrow> None
                | Some (h1, surf1, r) \<Rightarrow>
                    (case r of
                       Fault f \<Rightarrow> Some (h1, SetSurf s (Some surf1), Fault f)
                     | Ret ok \<Rightarrow>
                         if \<not> ok then Some (h1, SetSurf s (Some surf1), Ret 0)
                         else Some (h1, SetSurf s (Some surf1),
                                    Ret (if freeImages surf1 then 1 else 0)))))"

text \<open>
  Lines 229 to 261 of \<open>eGbmSurfaceLockFrontBuffer\<close>: the export of the image and
  its import as a buffer object. The result is what \<open>*bo\<close> holds afterwards;
  \<open>NULL\<close> is the jump to \<open>fail\<close>.
\<close>

definition Materialize ::
  "env \<Rightarrow> call list \<Rightarrow> gbm_surface \<Rightarrow> EGLImage \<Rightarrow> call list \<times> gbm_bo_ptr outcome" where
  "Materialize e h g img =
     (case ExportDMABUFImageQueryMESA e h img of (ok, format, planes, modifier) \<Rightarrow>
        let h1 = h @ [ExportQuery img ok format planes modifier] in
        if \<not> ok then (h1, Ret NULL)
        else if planes \<noteq> 1 \<and> \<not> NDEBUG e then (h1, Fault (AssertFailed Assert_planes))
        else (case ExportDMABUFImageMESA e h1 img of (ok2, fd, stride, offset) \<Rightarrow>
           let h2 = h1 @ [Export img ok2 fd stride offset] in
           if \<not> ok2 then (h2, Ret NULL)
           else
             (let buf = \<lparr>buf_width = v0_width g, buf_height = v0_height g,
                         buf_format = v0_format g, buf_num_fds = 1, buf_fd0 = fd,
                         buf_stride0 = stride, buf_offset0 = offset,
                         buf_modifier = modifier\<rparr>;
                  b = gbm_bo_import e h2 buf
              in (h2 @ [BoImport buf b], Ret b))))"

text \<open>Lines 201 to 273: \<open>eGbmSurfaceLockFrontBuffer\<close> after the pump has succeeded.\<close>

definition LockAcquire ::
  "env \<Rightarrow> call list \<Rightarrow> GbmSurface \<Rightarrow> gbm_surface \<Rightarrow> call list \<times> GbmSurface \<times> gbm_bo_ptr outcome" where
  "LockAcquire e h surf g =
     (case StreamAcquireImageNV e h (stream surf) of (res, img) \<Rightarrow>
        let h1 = h @ [AcquireImage (stream surf) EGL_NO_SYNC_KHR res img] in
        if \<not> res then (h1 @ [SetError EGL_BAD_SURFACE], surf, Ret NULL)
        else
          (let surf1 = surf\<lparr>freeImages := False\<rparr>;
               i = slot_scan (\<lambda>sl. image sl = img) (images surf1) 0
           in if \<not> i < MAX_STREAM_IMAGES
              then (h1, surf1, Fault (if NDEBUG e then NullDeref else AssertFailed Assert_bo))
              else
                (let surf2 = surf1\<lparr>images := (images surf1)[i := (images surf1 ! i)\<lparr>locked := True\<rparr>]\<rparr>
                 in if bo (images surf2 ! i) \<noteq> NULL then (h1, surf2, Ret (bo (images surf2 ! i)))
                    else (case Materialize e h1 g img of (h2, m) \<Rightarrow>
                      (case m of
                         Fault f \<Rightarrow> (h2, surf2, Fault f)
                       | Ret b \<Rightarrow>
                           if b \<noteq> NULL
                           then (h2, surf2\<lparr>images := (images surf2)[i := (images surf2 ! i)\<lparr>bo := b\<rparr>]\<rparr>, Ret b)
                           else (h2 @ [SetError EGL_BAD_ALLOC,
                                       ReleaseImage (stream surf2) img EGL_NO_SYNC_KHR],
                                 surf2\<lparr>images := (images surf2)[i := (images surf2 ! i)\<lparr>locked := False\<rparr>]\<rparr>,
                                 Ret NULL))))))"

definition eGbmSurfaceLockFrontBuffer ::
  "env \<Rightarrow> call list \<Rightarrow> gbm_surface option \<Rightarrow> (call list \<times> gbm_surface option \<times> gbm_bo_ptr outcome) option" where
  "eGbmSurfaceLockFrontBuffer e h s =
     (case s of
        None \<Rightarrow> Some (h, s, Ret NULL)
      | Some g \<Rightarrow>
     (case priv g of
        None \<Rightarrow> Some (h, s, Ret NULL)
      | Some surf \<Rightarrow>
          (case PumpSurfEvents e h surf of
             None \<Rightarrow> None
           | Some (h1, surf1, r) \<Rightarrow>
               (case r of
                  Fault f \<Rightarrow> Some (h1, SetSurf s (Some surf1), Fault f)
                | Ret ok \<Rightarrow>
                    if \<not> ok then Some (h1, SetSurf s (Some surf1), Ret NULL)
                    else (case LockAcquire e h1 surf1 g of (h2, surf2, res) \<Rightarrow>
                            Some (h2, SetSurf s (Some surf2), res))))))"

definition eGbmSurfaceReleaseBuffer ::
  "env \<Rightarrow> call list \<Rightarrow> gbm_surface option \<Rightarrow> gbm_bo_ptr \<Rightarrow> call list \<times> gbm_surface option \<times> unit outcome" where
  "eGbmSurfaceReleaseBuffer e h s b =
     (case GetSurf s of
        None \<Rightarrow> (h, s, Ret ())
      | Some surf \<Rightarrow>
          if b = NULL then (h, s, Ret ())
          else
            (let i = slot_scan (\<lambda>sl. bo sl = b) (images surf) 0;
                 found = i < MAX_STREAM_IMAGES;
                 surf1 = (if found
                          then surf\<lparr>images := (images surf)[i := (images surf ! i)\<lparr>locked := False\<rparr>]\<rparr>
                          else surf);
                 img = (if found then image (images surf ! i) else EGL_NO_IMAGE_KHR);
                 h1 = (if found \<and> img = EGL_NO_IMAGE_KHR
                       then h @ [BoDestroy (bo (images surf ! i))] else h)
             in if img = EGL_NO_IMAGE_KHR
                then (h1, SetSurf s (Some surf1), if NDEBUG e then Ret () else Fault (AssertFailed Assert_img))
                else (h1 @ [ReleaseImage (stream surf) img EGL_NO_SYNC_KHR],
                      SetSurf s (Some surf1), Ret ())))"

section \<open>Creation and destruction\<close>

definition FreeSurface :: "call list \<Rightarrow> GbmSurface option \<Rightarrow> call list" where
  "FreeSurface h obj =
     (case obj of
        None \<Rightarrow> h
      | Some surf \<Rightarrow>
          h @ concat (map (\<lambda>i.
                 (if image (images surf ! i) \<noteq> EGL_NO_IMAGE_KHR
                  then [DestroyImage (image (images surf ! i))] else []) @
                 (if bo (images surf ! i) \<noteq> NULL
                  then [BoDestroy (bo (images surf ! i))] else []))
               [0..<MAX_STREAM_IMAGES])
            @ (if egl surf \<noteq> EGL_NO_SURFACE then [DestroySurface (egl surf)] else [])
            @ (if stream surf \<noteq> EGL_NO_STREAM_KHR then [DestroyStream (stream surf)] else [])
            @ [UnrefObject (dpy (base surf)), FreeObj])"

text \<open>The label \<open>fail\<close> of \<open>eGbmCreatePlatformWindowSurfaceHook\<close>.\<close>

definition CreateFail ::
  "call list \<Rightarrow> gbm_surface option \<Rightarrow> GbmSurface option \<Rightarrow> EGLerror
     \<Rightarrow> (call list \<times> gbm_surface option \<times> GbmSurface option outcome) option" where
  "CreateFail h s surf err = Some (FreeSurface h surf @ [SetError err], s, Ret None)"

text \<open>What \<open>calloc\<close> returns, with the four fields of \<open>base\<close> assigned.\<close>

definition new_surface :: "EGLDisplay \<Rightarrow> GbmSurface" where
  "new_surface display =
     \<lparr>base = \<lparr>free = Some FreeSurface_fn, dpy = display,
              type = EGL_OBJECT_SURFACE_KHR, refCount = 1\<rparr>,
      stream = EGL_NO_STREAM_KHR, egl = EGL_NO_SURFACE,
      images = replicate MAX_STREAM_IMAGES
                 \<lparr>image = EGL_NO_IMAGE_KHR, bo = NULL, locked = False\<rparr>,
      freeImages = False\<rparr>"

text \<open>
  The initialiser of \<open>surfAttrs\<close> reads \<open>s->v0.width\<close> before any check, so a null
  native window stops the call there, after the display has been resolved.
\<close>

definition eGbmCreatePlatformWindowSurfaceHook ::
  "env \<Rightarrow> call list \<Rightarrow> EGLDisplay \<Rightarrow> EGLConfig \<Rightarrow> gbm_surface option
     \<Rightarrow> (call list \<times> gbm_surface option \<times> GbmSurface option outcome) option" where
  "eGbmCreatePlatformWindowSurfaceHook e h d config nativeWin =
     (let display = eGbmRefHandle e h d;
          h0 = h @ [RefHandle d display]
      in case nativeWin of
        None \<Rightarrow> Some (h0, nativeWin, Fault NullDeref)
      | Some g \<Rightarrow>
          if \<not> display then Some (h0, nativeWin, Ret None)
          else (case egl_GetConfigAttrib e h0 config of (res, surfType) \<Rightarrow>
            let h1 = h0 @ [GetConfigAttrib config res surfType] in
            if \<not> res \<or> surfType AND EGL_STREAM_BIT_KHR = 0
            then CreateFail h1 nativeWin None EGL_BAD_CONFIG
            else
              (let ok = calloc e h1; h2 = h1 @ [Calloc ok] in
               if \<not> ok then CreateFail h2 nativeWin None EGL_BAD_ALLOC
               else
                 (let st = CreateStreamKHR e h2;
                      h3 = h2 @ [CreateStream st];
                      surf1 = (new_surface d)\<lparr>stream := st\<rparr>
                  in if st = EGL_NO_STREAM_KHR
                     then CreateFail h3 nativeWin (Some surf1) EGL_SUCCESS
                     else
                       (let c = StreamImageConsumerConnectNV e h3 st;
                            h4 = h3 @ [ConsumerConnect st (v0_count g) (v0_modifiers g) c]
                        in if \<not> c then CreateFail h4 nativeWin (Some surf1) EGL_SUCCESS
                           else
                             (let es = CreateStreamProducerSurfaceKHR e h4 config st;
                                  h5 = h4 @ [CreateProducerSurface config st (v0_width g) (v0_height g) es];
                                  surf2 = surf1\<lparr>egl := es\<rparr>
                              in if es = EGL_NO_SURFACE
                                 then CreateFail h5 nativeWin (Some surf2) EGL_SUCCESS
                                 else (case PumpSurfEvents e h5 surf2 of
                                     None \<Rightarrow> None
                                   | Some (h6, surf3, r) \<Rightarrow>
                                       (case r of
                                          Fault f \<Rightarrow> Some (h6, nativeWin, Fault f)
                                        | Ret pumped \<Rightarrow>
                                            if \<not> pumped
                                            then CreateFail h6 nativeWin (Some surf3) EGL_BAD_ALLOC
                                            else
                                              (let added = eGbmAddObject e h6;
                                                   h7 = h6 @ [AddObject added]
                                               in if \<not> added
                                                  then CreateFail h7 nativeWin (Some surf3) EGL_BAD_ALLOC
                                                  else Some (h7, SetSurf nativeWin (Some surf3),
                                                             Ret (Some surf3)))))))))))"

text \<open>
  The references on display \<open>d\<close> that the calls logged in \<open>h\<close> have taken and not
  given back: one for each \<open>eGbmRefHandle\<close> that resolved, less one for each
  \<open>eGbmUnrefObject\<close>.
\<close>

definition display_refs :: "EGLDisplay \<Rightarrow> call list \<Rightarrow> int" where
  "display_refs d h =
     int (length (filter (\<lambda>c. c = RefHandle d True) h))
       - int (length (filter (\<lambda>c. c = UnrefObject d) h))"

section \<open>Reading the log\<close>

text \<open>
  An event query that delivered "frames available", one that delivered no event, and the
  calls the pump can make.
\<close>

definition frames_available :: "call \<Rightarrow> bool" where
  "frames_available c =
     (case c of
        QueryEvent st evStatus event aux \<Rightarrow>
          evStatus = EGL_TRUE \<and> event = EGL_STREAM_IMAGE_AVAILABLE_NV
      | _ \<Rightarrow> False)"

definition no_event :: "call \<Rightarrow> bool" where
  "no_event c = (case c of QueryEvent st evStatus event aux \<Rightarrow> evStatus \<noteq> EGL_TRUE | _ \<Rightarrow> False)"

definition pump_call :: "call \<Rightarrow> bool" where
  "pump_call c =
     (case c of
        QueryEvent st evStatus event aux \<Rightarrow> True
      | CreateImage st img \<Rightarrow> True
      | DestroyImage img \<Rightarrow> True
      | BoDestroy b \<Rightarrow> True
      | _ \<Rightarrow> False)"

definition pump_post :: "env \<Rightarrow> call list \<Rightarrow> GbmSurface \<Rightarrow> call list \<times> GbmSurface \<times> bool outcome \<Rightarrow> bool" where
  "pump_post e h surf y =
     (case y of (h', surf', r) \<Rightarrow>
        \<exists>new. h' = h @ new \<and> new \<noteq> [] \<and> list_all pump_call new
          \<and> length (filter frames_available new) = (if freeImages surf' then 1 else 0)
          \<and> (freeImages surf' \<longrightarrow> frames_available (last new) \<and> r = Ret True)
          \<and> (\<not> freeImages surf' \<and> r = Ret True \<longrightarrow> no_event (last new))
          \<and> (\<forall>f. r = Fault f \<longrightarrow> f = AssertFailed Assert_event \<and> \<not> NDEBUG e)
          \<and> length (images surf') = length (images surf)
          \<and> stream surf' = stream surf \<and> egl surf' = egl surf \<and> base surf' = base surf)"

text \<open>
  A scripted collaborator: the n-th event query, image creation, acquisition and import
  are answered by the n-th entry of a list (by a fixed last answer when the list is
  used up), the other calls by fixed answers.
\<close>

record script =
  s_ndebug :: bool
  s_events :: "(EGLint \<times> EGLenum \<times> EGLImage) list"
  s_images :: "EGLImage list"
  s_acquires :: "(bool \<times> EGLImage) list"
  s_export_query :: "bool \<times> int \<times> int \<times> 64 word"
  s_export :: "bool \<times> int \<times> int \<times> int"
  s_imports :: "gbm_bo_ptr list"
  s_display :: bool
  s_config :: "bool \<times> 32 word"
  s_calloc :: bool
  s_stream :: EGLStreamKHR
  s_connect :: bool
  s_producer :: EGLSurface
  s_add :: bool

definition nth_or :: "'a \<Rightarrow> 'a list \<Rightarrow> nat \<Rightarrow> 'a" where
  "nth_or d xs n = (if n < length xs then xs ! n else d)"

definition is_query :: "call \<Rightarrow> bool" where
  "is_query c = (case c of QueryEvent st evStatus event aux \<Rightarrow> True | _ \<Rightarrow> False)"

definition is_create :: "call \<Rightarrow> bool" where
  "is_create c = (case c of CreateImage st img \<Rightarrow> True | _ \<Rightarrow> False)"

definition is_acquire :: "call \<Rightarrow> bool" where
  "is_acquire c = (case c of AcquireImage st sy res img \<Rightarrow> True | _ \<Rightarrow> False)"

definition is_import :: "call \<Rightarrow> bool" where
  "is_import c = (case c of BoImport buf b \<Rightarrow> True | _ \<Rightarrow> False)"

definition scripted :: "script \<Rightarrow> env" where
  "scripted sc =
     \<lparr>NDEBUG = s_ndebug sc,
      QueryStreamConsumerEventNV =
        (\<lambda>h st. nth_or (0, OtherEvent 0, EGL_NO_IMAGE_KHR) (s_events sc) (length (filter is_query h))),
      CreateImageKHR = (\<lambda>h st. nth_or EGL_NO_IMAGE_KHR (s_images sc) (length (filter is_create h))),
      StreamAcquireImageNV =
        (\<lambda>h st. nth_or (False, EGL_NO_IMAGE_KHR) (s_acquires sc) (length (filter is_acquire h))),
      ExportDMABUFImageQueryMESA = (\<lambda>h img. s_export_query sc),
      ExportDMABUFImageMESA = (\<lambda>h img. s_export sc),
      gbm_bo_import = (\<lambda>h buf. nth_or NULL (s_imports sc) (length (filter is_import h))),
      eGbmRefHandle = (\<lambda>h d. s_display sc),
      egl_GetConfigAttrib = (\<lambda>h c. s_config sc),
      calloc = (\<lambda>h. s_calloc sc),
      CreateStreamKHR = (\<lambda>h. s_stream sc),
      StreamImageConsumerConnectNV = (\<lambda>h st. s_connect sc),
      CreateStreamProducerSurfaceKHR = (\<lambda>h c st. s_producer sc),
      eGbmAddObject = (\<lambda>h. s_add sc)\<rparr>"

definition script0 :: script where
  "script0 =
     \<lparr>s_ndebug = True, s_events = [], s_images = [], s_acquires = [],
      s_export_query = (True, 0, 1, 0), s_export = (True, 3, 256, 0), s_imports = [],
      s_display = True, s_config = (True, EGL_STREAM_BIT_KHR), s_calloc = True,
      s_stream = 5, s_connect = True, s_producer = 6, s_add = True\<rparr>"

definition script_add_available :: script where
  "script_add_available =
     script0\<lparr>s_events := [(EGL_TRUE, EGL_STREAM_IMAGE_ADD_NV, 0),
                           (EGL_TRUE, EGL_STREAM_IMAGE_AVAILABLE_NV, 0)],
             s_images := [11]\<rparr>"

definition surface_one_image :: GbmSurface where
  "surface_one_image =
     (new_surface 1)\<lparr>images := (images (new_surface 1))[0 := \<lparr>image = 11, bo = 0, locked = False\<rparr>],
                     freeImages := True\<rparr>"

definition script_add :: script where
  "script_add = script0\<lparr>s_events := [(EGL_TRUE, EGL_STREAM_IMAGE_ADD_NV, 0)], s_images := [11]\<rparr>"

definition surface_full :: GbmSurface where
  "surface_full =
     (new_surface 1)\<lparr>images :=
        map (\<lambda>k. \<lparr>image = k, bo = NULL, locked = False\<rparr>) [21, 22, 23, 24, 25, 26, 27, 28, 29, 30]\<rparr>"

definition window :: "GbmSurface option \<Rightarrow> gbm_surface" where
  "window p = \<lparr>v0_width = 640, v0_height = 480, v0_format = 875713112, v0_count = 0,
               v0_modifiers = [], priv = p\<rparr>"

definition script_export_fails :: script where
  "script_export_fails =
     script0\<lparr>s_events := [(EGL_TRUE, EGL_STREAM_IMAGE_AVAILABLE_NV, 0)],
             s_acquires := [(True, 11)],
             s_export_query := (False, 0, 0, 0)\<rparr>"

definition surface_locked :: GbmSurface where
  "surface_locked =
     (new_surface 1)\<lparr>images := (images (new_surface 1))[0 := \<lparr>image = 11, bo = 41, locked = True\<rparr>]\<rparr>"

definition surface_revoked :: GbmSurface where
  "surface_revoked =
     (new_surface 1)\<lparr>images := (images (new_surface 1))[0 := \<lparr>image = 0, bo = 41, locked = True\<rparr>]\<rparr>"

definition surface_stale :: GbmSurface where
  "surface_stale =
     (new_surface 1)\<lparr>images := (images (new_surface 1))[0 := \<lparr>image = 0, bo = 41, locked = False\<rparr>]\<rparr>"

definition surface_cached :: GbmSurface where
  "surface_cached =
     (new_surface 1)\<lparr>images := (images (new_surface 1))[0 := \<lparr>image = 11, bo = 41, locked = False\<rparr>]\<rparr>"

definition removes :: "EGLImage \<Rightarrow> call \<Rightarrow> bool" where
  "removes img c =
     (case c of
        QueryEvent st evStatus event aux \<Rightarrow>
          evStatus = EGL_TRUE \<and> event = EGL_STREAM_IMAGE_REMOVE_NV \<and> aux = img
      | _ \<Rightarrow> False)"

definition creates :: "EGLImage \<Rightarrow> call \<Rightarrow> bool" where
  "creates img c = (case c of CreateImage st i \<Rightarrow> i = img | _ \<Rightarrow> False)"

definition acquires :: "EGLImage \<Rightarrow> call \<Rightarrow> bool" where
  "acquires img c = (case c of AcquireImage st sy res i \<Rightarrow> res \<and> i = img | _ \<Rightarrow> False)"

definition exports :: "call \<Rightarrow> bool" where
  "exports c =
     (case c of
        ExportQuery img ok format planes modifier \<Rightarrow> True
      | Export img ok fd stride offset \<Rightarrow> True
      | BoImport buf b \<Rightarrow> True
      | _ \<Rightarrow> False)"

text \<open>
  Slot \<open>i\<close> has lost its frame image and still holds the pointer \<open>b\<close>.
\<close>

definition stale_slot :: "nat \<Rightarrow> gbm_bo_ptr \<Rightarrow> GbmSurface \<Rightarrow> bool" where
  "stale_slot i b surf \<longleftrightarrow>
     i < length (images surf) \<and> image (images surf ! i) = EGL_NO_IMAGE_KHR \<and> bo (images surf ! i) = b"

text \<open>
  A client of the native window: a sequence of calls to its three entry points. A call
  that stops the process ends the sequence.
\<close>

datatype window_op = HasFreeBuffers | LockFrontBuffer | ReleaseBuffer gbm_bo_ptr

definition returned :: "'a outcome \<Rightarrow> bool" where
  "returned r = (case r of Fault f \<Rightarrow> False | Ret v \<Rightarrow> True)"

definition run_op ::
  "env \<Rightarrow> call list \<Rightarrow> gbm_surface option \<Rightarrow> window_op
     \<Rightarrow> (call list \<times> gbm_surface option \<times> bool) option" where
  "run_op e h s op =
     (case op of
        HasFreeBuffers \<Rightarrow>
          (case eGbmSurfaceHasFreeBuffers e h s of
             None \<Rightarrow> None | Some (h1, s1, r) \<Rightarrow> Some (h1, s1, returned r))
      | LockFrontBuffer \<Rightarrow>
          (case eGbmSurfaceLockFrontBuffer e h s of
             None \<Rightarrow> None | Some (h1, s1, r) \<Rightarrow> Some (h1, s1, returned r))
      | ReleaseBuffer b \<Rightarrow>
          (case eGbmSurfaceReleaseBuffer e h s b of (h1, s1, r) \<Rightarrow> Some (h1, s1, returned r)))"

fun run_ops ::
  "env \<Rightarrow> call list \<Rightarrow> gbm_surface option \<Rightarrow> window_op list
     \<Rightarrow> (call list \<times> gbm_surface option) option" where
  "run_ops e h s [] = Some (h, s)"
| "run_ops e h s (op # ops) =
     (case run_op e h s op of
        None \<Rightarrow> None
      | Some (h1, s1, alive) \<Rightarrow> if alive then run_ops e h1 s1 ops else Some (h1, s1))"

definition surface_stale_added :: GbmSurface where
  "surface_stale_added =
     (new_surface 1)\<lparr>images := (images (new_surface 1))
        [0 := \<lparr>image = 0, bo = 41, locked = False\<rparr>, 1 := \<lparr>image = 11, bo = 0, locked = False\<rparr>],
        freeImages := True\<rparr>"

definition script_remove_null :: script where
  "script_remove_null =
     script0\<lparr>s_events := [(EGL_TRUE, EGL_STREAM_IMAGE_REMOVE_NV, EGL_NO_IMAGE_KHR),
                           (EGL_TRUE, EGL_STREAM_IMAGE_AVAILABLE_NV, 0)]\<rparr>"

definition log_remove_null :: "call list" where
  "log_remove_null =
     [BoDestroy 41,
      QueryEvent 0 EGL_TRUE EGL_STREAM_IMAGE_REMOVE_NV EGL_NO_IMAGE_KHR,
      DestroyImage EGL_NO_IMAGE_KHR,
      BoDestroy 41,
      QueryEvent 0 EGL_TRUE EGL_STREAM_IMAGE_AVAILABLE_NV 0]"

text \<open>
  Slot \<open>i\<close> is the slot that a lock of the frame image \<open>img\<close> finds, and it holds the
  buffer object \<open>b\<close>.
\<close>

definition cached_slot :: "EGLImage \<Rightarrow> nat \<Rightarrow> gbm_bo_ptr \<Rightarrow> GbmSurface \<Rightarrow> bool" where
  "cached_slot img i b surf \<longleftrightarrow>
     length (images surf) = MAX_STREAM_IMAGES \<and> i < MAX_STREAM_IMAGES \<and>
     slot_scan (\<lambda>sl. image sl = img) (images surf) 0 = i \<and> bo (images surf ! i) = b"

definition script_lock_twice :: script where
  "script_lock_twice =
     script0\<lparr>s_events := [(EGL_TRUE, EGL_STREAM_IMAGE_AVAILABLE_NV, 0),
                           (EGL_TRUE, EGL_STREAM_IMAGE_AVAILABLE_NV, 0)],
             s_acquires := [(True, 11), (True, 11)],
             s_imports := [41]\<rparr>"

definition import_buf :: gbm_import_fd_modifier_data where
  "import_buf =
     \<lparr>buf_width = 640, buf_height = 480, buf_format = 875713112, buf_num_fds = 1,
      buf_fd0 = 3, buf_stride0 = 256, buf_offset0 = 0, buf_modifier = 0\<rparr>"

definition log_first_lock :: "call list" where
  "log_first_lock =
     [QueryEvent 0 EGL_TRUE EGL_STREAM_IMAGE_AVAILABLE_NV 0,
      AcquireImage 0 EGL_NO_SYNC_KHR True 11,
      ExportQuery 11 True 0 1 0,
      Export 11 True 3 256 0,
      BoImport import_buf 41]"

definition script_bad_config :: script where
  "script_bad_config = script0\<lparr>s_config := (True, 0)\<rparr>"

definition script_no_stream :: script where
  "script_no_stream = script0\<lparr>s_stream := EGL_NO_STREAM_KHR\<rparr>"

section \<open>The handle registry\<close>

text \<open>
  Modelled from the spec: the handle registry. \<open>gbm-handle.h\<close> declares
  \<open>eGbmAddObject\<close>, \<open>eGbmRefHandle\<close>, \<open>eGbmUnrefObject\<close> and \<open>eGbmUnrefHandle\<close>; the file
  that implements them is not among the sources. The spec (4.1) says: \<open>register\<close> adds
  an object whose reference count is already at least 1 to the table; \<open>resolveAndRef\<close>
  checks that the handle is live and, if so, increments the count; \<open>unref\<close> decrements
  the count and, at zero, calls the object's destroy function and removes the registry
  entry; \<open>unregister\<close> looks the handle up and, if found, does one \<open>unref\<close>. The state
  of one object: its count, whether the table has its entry, and how often its destroy
  function has been called.
\<close>

record registry_object =
  ro_refCount :: int
  ro_live :: bool
  ro_destroyed :: nat

text \<open>
  Modelled from the spec: \<open>register(obj)\<close> adds the object, whose count is already at
  least 1, to the table (the failure on allocation exhaustion is left out).
\<close>

definition registry_register :: "registry_object \<Rightarrow> registry_object" where
  "registry_register ob = ob\<lparr>ro_live := True\<rparr>"

text \<open>
  Modelled from the spec: \<open>unref(obj)\<close> decrements the count; at zero it invokes the
  destroy function and removes the registry entry.
\<close>

definition registry_unref :: "registry_object \<Rightarrow> registry_object" where
  "registry_unref ob =
     (let ob1 = ob\<lparr>ro_refCount := ro_refCount ob - 1\<rparr> in
      if ro_refCount ob1 = 0
      then ob1\<lparr>ro_destroyed := ro_destroyed ob1 + 1, ro_live := False\<rparr>
      else ob1)"

text \<open>
  Modelled from the spec: \<open>resolveAndRef(handle)\<close> increments the count if the handle is
  live, and otherwise reports "not found" and changes nothing.
\<close>

definition registry_resolveAndRef :: "registry_object \<Rightarrow> registry_object" where
  "registry_resolveAndRef ob =
     (if ro_live ob then ob\<lparr>ro_refCount := ro_refCount ob + 1\<rparr> else ob)"

text \<open>
  Modelled from the spec: \<open>unregister(handle)\<close> does one \<open>unref\<close> if the handle is found.
\<close>

definition registry_unregister :: "registry_object \<Rightarrow> registry_object" where
  "registry_unregister ob = (if ro_live ob then registry_unref ob else ob)"

text \<open>
  Modelled from the spec: a sequence of registry operations applied to one object.
\<close>

datatype registry_op = Unref | ResolveAndRef | Unregister

fun registry_step :: "registry_op \<Rightarrow> registry_object \<Rightarrow> registry_object" where
  "registry_step Unref ob = registry_unref ob"
| "registry_step ResolveAndRef ob = registry_resolveAndRef ob"
| "registry_step Unregister ob = registry_unregister ob"

fun registry_run :: "registry_op list \<Rightarrow> registry_object \<Rightarrow> registry_object" where
  "registry_run [] ob = ob"
| "registry_run (op # ops) ob = registry_run ops (registry_step op ob)"

text \<open>Modelled from the spec: an object with \<open>n\<close> references, registered.\<close>

definition registered_object :: "int \<Rightarrow> registry_object" where
  "registered_object n =
     registry_register \<lparr>ro_refCount = n, ro_live = False, ro_destroyed = 0\<rparr>"

section \<open>Properties of the slot scans\<close>

lemma slot_scan_le: "slot_scan P xs i \<le> max i MAX_STREAM_IMAGES"
  by (induction P xs i rule: slot_scan.induct) (subst slot_scan.simps, auto)

lemma slot_scan_ge: "i \<le> slot_scan P xs i"
  by (induction P xs i rule: slot_scan.induct) (subst slot_scan.simps, auto)

lemma slot_scan_found: "slot_scan P xs i < MAX_STREAM_IMAGES \<Longrightarrow> P (xs ! slot_scan P xs i)"
  by (induction P xs i rule: slot_scan.induct)
     (subst (asm) (2) slot_scan.simps, subst slot_scan.simps, auto split: if_splits)

lemma slot_scan_first: "i \<le> j \<Longrightarrow> j < slot_scan P xs i \<Longrightarrow> \<not> P (xs ! j)"
proof (induction P xs i rule: slot_scan.induct)
  case (1 P xs i)
  show ?case
  proof (cases "i < MAX_STREAM_IMAGES \<and> \<not> P (xs ! i)")
    case True
    then have eq: "slot_scan P xs i = slot_scan P xs (i + 1)"
      by (subst slot_scan.simps) simp
    show ?thesis
    proof (cases "j = i")
      case True
      with \<open>i < MAX_STREAM_IMAGES \<and> \<not> P (xs ! i)\<close> show ?thesis by simp
    next
      case False
      with "1.prems" have "i + 1 \<le> j" by simp
      with "1.IH" True "1.prems" eq show ?thesis by simp
    qed
  next
    case False
    then have "slot_scan P xs i = i"
      by (subst slot_scan.simps) auto
    with "1.prems" show ?thesis by simp
  qed
qed

lemma slot_scan_eqI:
  assumes "i \<le> k" "k < MAX_STREAM_IMAGES" "P (xs ! k)" "\<forall>j. i \<le> j \<and> j < k \<longrightarrow> \<not> P (xs ! j)"
  shows "slot_scan P xs i = k"
proof -
  have "\<not> k < slot_scan P xs i"
    using slot_scan_first [of i k P xs] assms by blast
  moreover have "\<not> slot_scan P xs i < k"
  proof
    assume lt: "slot_scan P xs i < k"
    then have "P (xs ! slot_scan P xs i)"
      using slot_scan_found [of P xs i] assms(2) by simp
    with lt assms(4) slot_scan_ge [of i P xs] show False by blast
  qed
  ultimately show ?thesis by simp
qed

lemma slot_scan_none:
  "\<forall>j<MAX_STREAM_IMAGES. \<not> P (xs ! j) \<Longrightarrow> slot_scan P xs 0 = MAX_STREAM_IMAGES"
  using slot_scan_found [of P xs 0] slot_scan_le [of P xs 0] by (auto simp: le_less)

lemma slot_scan_some:
  "j < MAX_STREAM_IMAGES \<Longrightarrow> P (xs ! j) \<Longrightarrow> slot_scan P xs 0 < MAX_STREAM_IMAGES"
  using slot_scan_first [of 0 j P xs] slot_scan_le [of P xs 0] by (cases "j < slot_scan P xs 0") auto

lemma slot_scan_cong:
  "\<forall>j<MAX_STREAM_IMAGES. P (xs ! j) = Q (ys ! j) \<Longrightarrow> slot_scan P xs i = slot_scan Q ys i"
proof (induction P xs i rule: slot_scan.induct)
  case (1 P xs i)
  show ?case
    using 1 by (subst slot_scan.simps, subst (2) slot_scan.simps) auto
qed

section \<open>Properties of the pump\<close>

lemma AddSurfImage_frame:
  assumes "AddSurfImage e h surf = (h1, surf1, ok)"
  shows "length (images surf1) = length (images surf)" "stream surf1 = stream surf"
    "freeImages surf1 = freeImages surf" "egl surf1 = egl surf" "base surf1 = base surf"
  using assms by (auto simp: AddSurfImage_def Let_def split: if_splits)

lemma RemoveSurfImage_frame:
  assumes "RemoveSurfImage h surf img = (h1, surf1)"
  shows "length (images surf1) = length (images surf)" "stream surf1 = stream surf"
    "freeImages surf1 = freeImages surf" "egl surf1 = egl surf" "base surf1 = base surf"
  using assms by (auto simp: RemoveSurfImage_def Let_def split: if_splits)

lemma AddSurfImage_calls:
  assumes "AddSurfImage e h surf = (h1, surf1, ok)"
  shows "\<exists>new. h1 = h @ new \<and> list_all pump_call new \<and> filter frames_available new = []
           \<and> (ok \<longrightarrow> new \<noteq> [])"
  using assms
  by (auto simp: AddSurfImage_def Let_def pump_call_def frames_available_def split: if_splits)

lemma RemoveSurfImage_calls:
  assumes "RemoveSurfImage h surf img = (h1, surf1)"
  shows "\<exists>new. h1 = h @ new \<and> list_all pump_call new \<and> filter frames_available new = []"
  using assms
  by (auto simp: RemoveSurfImage_def Let_def pump_call_def frames_available_def split: if_splits)

lemma PumpStep_frame:
  assumes "PumpStep e h surf = (h1, surf1, ctl)"
  shows "length (images surf1) = length (images surf)" "stream surf1 = stream surf"
    "egl surf1 = egl surf" "base surf1 = base surf"
  using assms
  by (auto simp: PumpStep_def Let_def split: prod.splits if_splits EGLenum.splits
           dest: AddSurfImage_frame RemoveSurfImage_frame)

lemma PumpStep_calls:
  assumes "PumpStep e h surf = (h1, surf1, ctl)" and "\<not> freeImages surf"
  shows "\<exists>q rest. h1 = h @ q # rest \<and> list_all pump_call (q # rest)
           \<and> filter frames_available rest = []
           \<and> (freeImages surf1 \<longleftrightarrow> frames_available q)
           \<and> (frames_available q \<longrightarrow> rest = [] \<and> ctl = LoopNext)
           \<and> (ctl = LoopBreak \<longrightarrow> rest = [] \<and> no_event q)
           \<and> (\<forall>b. ctl = LoopReturn b \<longrightarrow> \<not> b)"
proof -
  obtain evStatus event aux where q: "QueryStreamConsumerEventNV e h (stream surf) = (evStatus, event, aux)"
    by (cases "QueryStreamConsumerEventNV e h (stream surf)") auto
  let ?q = "QueryEvent (stream surf) evStatus event aux"
  show ?thesis
  proof (cases "evStatus = EGL_TRUE")
    case False
    with assms q show ?thesis
      by (auto simp: PumpStep_def Let_def pump_call_def frames_available_def no_event_def)
  next
    case True
    show ?thesis
    proof (cases event)
      case EGL_STREAM_IMAGE_AVAILABLE_NV
      with assms q True show ?thesis
        by (auto simp: PumpStep_def Let_def pump_call_def frames_available_def no_event_def)
    next
      case EGL_STREAM_IMAGE_ADD_NV
      obtain h2 surf2 ok where a: "AddSurfImage e (h @ [?q]) surf = (h2, surf2, ok)"
        by (cases "AddSurfImage e (h @ [?q]) surf") auto
      from AddSurfImage_calls [OF a] obtain new where
        n: "h2 = (h @ [?q]) @ new" "list_all pump_call new" "filter frames_available new = []"
        by blast
      from assms q True EGL_STREAM_IMAGE_ADD_NV a
      have r: "h1 = h2" "surf1 = surf2" "ctl = (if \<not> ok then LoopReturn False else LoopNext)"
        by (auto simp: PumpStep_def Let_def split: if_splits)
      have "freeImages surf1 = freeImages surf"
        using AddSurfImage_frame(3) [OF a] r by simp
      with assms(2) r n EGL_STREAM_IMAGE_ADD_NV show ?thesis
        by (auto simp: pump_call_def frames_available_def no_event_def)
    next
      case EGL_STREAM_IMAGE_REMOVE_NV
      obtain h2 surf2 where a: "RemoveSurfImage (h @ [?q]) surf aux = (h2, surf2)"
        by (cases "RemoveSurfImage (h @ [?q]) surf aux") auto
      from RemoveSurfImage_calls [OF a] obtain new where
        n: "h2 = (h @ [?q]) @ new" "list_all pump_call new" "filter frames_available new = []"
        by blast
      from assms q True EGL_STREAM_IMAGE_REMOVE_NV a
      have r: "h1 = h2" "surf1 = surf2" "ctl = LoopNext"
        by (auto simp: PumpStep_def Let_def)
      have "freeImages surf1 = freeImages surf"
        using RemoveSurfImage_frame(3) [OF a] r by simp
      with assms(2) r n EGL_STREAM_IMAGE_REMOVE_NV show ?thesis
        by (auto simp: pump_call_def frames_available_def no_event_def)
    next
      case (OtherEvent n)
      with assms q True show ?thesis
        by (auto simp: PumpStep_def Let_def pump_call_def frames_available_def no_event_def split: if_splits)
    qed
  qed
qed

lemma PumpLoop_induct [consumes 1, case_names halt iter]:
  assumes run: "PumpLoop e h surf = Some y"
    and stop: "\<And>h surf h1 surf1 ctl.
        PumpStep e h surf = (h1, surf1, ctl) \<Longrightarrow> \<not> (ctl = LoopNext \<and> \<not> freeImages surf1) \<Longrightarrow>
        P h surf (h1, surf1, case ctl of LoopBreak \<Rightarrow> Ret True | LoopReturn b \<Rightarrow> Ret b
                                | LoopAbort f \<Rightarrow> Fault f | LoopNext \<Rightarrow> Ret True)"
    and iter: "\<And>h surf h1 surf1 y.
        PumpStep e h surf = (h1, surf1, LoopNext) \<Longrightarrow> \<not> freeImages surf1 \<Longrightarrow>
        P h1 surf1 y \<Longrightarrow> P h surf y"
  shows "P h surf y"
proof -
  have "e = e \<longrightarrow> P h surf y"
  proof (rule PumpLoop.raw_induct [where P = "\<lambda>e' h surf y. e' = e \<longrightarrow> P h surf y", OF _ run])
    fix loop e' h surf y
    assume IH: "\<And>e' h surf y. loop e' h surf = Some y \<Longrightarrow> e' = e \<longrightarrow> P h surf y"
      and eq: "(case PumpStep e' h surf of
                  (h1, surf1, LoopBreak) \<Rightarrow> Some (h1, surf1, Ret True)
                | (h1, surf1, LoopReturn b) \<Rightarrow> Some (h1, surf1, Ret b)
                | (h1, surf1, LoopAbort f) \<Rightarrow> Some (h1, surf1, Fault f)
                | (h1, surf1, LoopNext) \<Rightarrow>
                    if \<not> freeImages surf1 then loop e' h1 surf1
                    else Some (h1, surf1, Ret True)) = Some y"
    show "e' = e \<longrightarrow> P h surf y"
    proof
      assume e: "e' = e"
      obtain h1 surf1 ctl where st: "PumpStep e h surf = (h1, surf1, ctl)"
        by (cases "PumpStep e h surf") auto
      show "P h surf y"
      proof (cases "ctl = LoopNext \<and> \<not> freeImages surf1")
        case True
        with eq st e have "loop e h1 surf1 = Some y" by simp
        with IH have "P h1 surf1 y" by blast
        with iter st True show ?thesis by blast
      next
        case False
        with eq st e have "y = (h1, surf1, case ctl of LoopBreak \<Rightarrow> Ret True | LoopReturn b \<Rightarrow> Ret b
                                | LoopAbort f \<Rightarrow> Fault f | LoopNext \<Rightarrow> Ret True)"
          by (auto split: loop_ctl.splits if_splits)
        with stop [OF st False] show ?thesis by simp
      qed
    qed
  qed
  then show ?thesis by simp
qed

lemma PumpStep_abort:
  "PumpStep e h surf = (h1, surf1, LoopAbort f) \<Longrightarrow> f = AssertFailed Assert_event \<and> \<not> NDEBUG e"
  by (auto simp: PumpStep_def Let_def split: prod.splits if_splits EGLenum.splits)


lemma PumpLoop_post_aux:
  assumes run: "PumpLoop e h surf = Some y"
  shows "\<not> freeImages surf \<longrightarrow> pump_post e h surf y"
proof (rule PumpLoop_induct [where P = "\<lambda>h surf y. \<not> freeImages surf \<longrightarrow> pump_post e h surf y", OF run])
  fix h surf h1 surf1 ctl
  assume st: "PumpStep e h surf = (h1, surf1, ctl)"
    and fin: "\<not> (ctl = LoopNext \<and> \<not> freeImages surf1)"
  let ?y = "(h1, surf1, case ctl of LoopBreak \<Rightarrow> Ret True | LoopReturn b \<Rightarrow> Ret b
                                | LoopAbort f \<Rightarrow> Fault f | LoopNext \<Rightarrow> Ret True)"
  show "\<not> freeImages surf \<longrightarrow> pump_post e h surf ?y"
  proof
    assume nf: "\<not> freeImages surf"
    from PumpStep_calls [OF st nf] obtain q rest where
      c: "h1 = h @ q # rest" "list_all pump_call (q # rest)" "filter frames_available rest = []"
         "freeImages surf1 \<longleftrightarrow> frames_available q"
         "frames_available q \<longrightarrow> rest = [] \<and> ctl = LoopNext"
         "ctl = LoopBreak \<longrightarrow> rest = [] \<and> no_event q"
         "\<forall>b. ctl = LoopReturn b \<longrightarrow> \<not> b"
      by blast
    note fr = PumpStep_frame [OF st]
    show "pump_post e h surf ?y"
    proof (cases ctl)
      case LoopBreak
      with c fr show ?thesis
        unfolding pump_post_def by (intro case_prodI exI [of _ "q # rest"]) auto
    next
      case (LoopReturn b)
      with c fr show ?thesis
        unfolding pump_post_def by (intro case_prodI exI [of _ "q # rest"]) auto
    next
      case (LoopAbort f)
      with c fr PumpStep_abort [of e h surf h1 surf1 f] st show ?thesis
        unfolding pump_post_def by (intro case_prodI exI [of _ "q # rest"]) auto
    next
      case LoopNext
      with fin have "freeImages surf1" by simp
      with LoopNext c fr show ?thesis
        unfolding pump_post_def by (intro case_prodI exI [of _ "q # rest"]) auto
    qed
  qed
next
  fix h surf h1 surf1 y
  assume st: "PumpStep e h surf = (h1, surf1, LoopNext)"
    and nf1: "\<not> freeImages surf1"
    and IH: "\<not> freeImages surf1 \<longrightarrow> pump_post e h1 surf1 y"
  show "\<not> freeImages surf \<longrightarrow> pump_post e h surf y"
  proof
    assume nf: "\<not> freeImages surf"
    from PumpStep_calls [OF st nf] obtain q rest where
      c: "h1 = h @ q # rest" "list_all pump_call (q # rest)" "filter frames_available rest = []"
         "freeImages surf1 \<longleftrightarrow> frames_available q"
      by blast
    note fr = PumpStep_frame [OF st]
    from IH nf1 have "pump_post e h1 surf1 y" by simp
    then obtain h' surf' r new where y: "y = (h', surf', r)" and
      n: "h' = h1 @ new" "new \<noteq> []" "list_all pump_call new"
         "length (filter frames_available new) = (if freeImages surf' then 1 else 0)"
         "freeImages surf' \<longrightarrow> frames_available (last new) \<and> r = Ret True"
         "\<not> freeImages surf' \<and> r = Ret True \<longrightarrow> no_event (last new)"
         "\<forall>f. r = Fault f \<longrightarrow> f = AssertFailed Assert_event \<and> \<not> NDEBUG e"
         "length (images surf') = length (images surf1)"
         "stream surf' = stream surf1" "egl surf' = egl surf1" "base surf' = base surf1"
      by (auto simp: pump_post_def)
    from nf1 c(4) have nq: "\<not> frames_available q" by simp
    have "h' = h @ (q # rest @ new)" using n(1) c(1) by simp
    moreover have "list_all pump_call (q # rest @ new)" using c(2) n(3) by simp
    moreover have "length (filter frames_available (q # rest @ new)) = (if freeImages surf' then 1 else 0)"
      using nq c(3) n(4) by simp
    moreover have "last (q # rest @ new) = last new" using n(2) by simp
    ultimately show "pump_post e h surf y"
      unfolding pump_post_def y using n fr by (intro case_prodI exI [of _ "q # rest @ new"]) auto
  qed
qed

lemma PumpLoop_halt:
  assumes "PumpStep e h surf = (h1, surf1, ctl)" and "\<not> (ctl = LoopNext \<and> \<not> freeImages surf1)"
  shows "PumpLoop e h surf =
           Some (h1, surf1, case ctl of LoopBreak \<Rightarrow> Ret True | LoopReturn b \<Rightarrow> Ret b
                              | LoopAbort f \<Rightarrow> Fault f | LoopNext \<Rightarrow> Ret True)"
  using assms by (subst PumpLoop.simps) (auto split: loop_ctl.splits)

lemma PumpLoop_iter:
  assumes "PumpStep e h surf = (h1, surf1, LoopNext)" and "\<not> freeImages surf1"
  shows "PumpLoop e h surf = PumpLoop e h1 surf1"
  using assms by (subst PumpLoop.simps) simp

lemma PumpLoop_no_event:
  assumes "QueryStreamConsumerEventNV e h (stream surf) = (evStatus, event, aux)"
    and "evStatus \<noteq> EGL_TRUE"
  shows "PumpLoop e h surf = Some (h @ [QueryEvent (stream surf) evStatus event aux], surf, Ret True)"
proof -
  have "PumpStep e h surf = (h @ [QueryEvent (stream surf) evStatus event aux], surf, LoopBreak)"
    using assms by (simp add: PumpStep_def)
  from PumpLoop_halt [OF this] show ?thesis by simp
qed

lemma PumpLoop_available:
  assumes "QueryStreamConsumerEventNV e h (stream surf) = (EGL_TRUE, EGL_STREAM_IMAGE_AVAILABLE_NV, aux)"
  shows "PumpLoop e h surf =
           Some (h @ [QueryEvent (stream surf) EGL_TRUE EGL_STREAM_IMAGE_AVAILABLE_NV aux],
                 surf\<lparr>freeImages := True\<rparr>, Ret True)"
proof -
  have "PumpStep e h surf =
          (h @ [QueryEvent (stream surf) EGL_TRUE EGL_STREAM_IMAGE_AVAILABLE_NV aux],
           surf\<lparr>freeImages := True\<rparr>, LoopNext)"
    using assms by (simp add: PumpStep_def)
  from PumpLoop_halt [OF this] show ?thesis by simp
qed

lemma PumpLoop_add:
  assumes "QueryStreamConsumerEventNV e h (stream surf) = (EGL_TRUE, EGL_STREAM_IMAGE_ADD_NV, aux)"
    and "AddSurfImage e (h @ [QueryEvent (stream surf) EGL_TRUE EGL_STREAM_IMAGE_ADD_NV aux]) surf
           = (h2, surf2, ok)"
    and "\<not> freeImages surf"
  shows "PumpLoop e h surf = (if ok then PumpLoop e h2 surf2 else Some (h2, surf2, Ret False))"
proof (cases ok)
  case True
  have "PumpStep e h surf = (h2, surf2, LoopNext)"
    using assms True by (simp add: PumpStep_def)
  moreover have "\<not> freeImages surf2"
    using AddSurfImage_frame(3) [OF assms(2)] assms(3) by simp
  ultimately show ?thesis using True PumpLoop_iter by simp
next
  case False
  have "PumpStep e h surf = (h2, surf2, LoopReturn False)"
    using assms False by (simp add: PumpStep_def)
  from PumpLoop_halt [OF this] False show ?thesis by simp
qed

lemma PumpLoop_remove:
  assumes "QueryStreamConsumerEventNV e h (stream surf) = (EGL_TRUE, EGL_STREAM_IMAGE_REMOVE_NV, aux)"
    and "RemoveSurfImage (h @ [QueryEvent (stream surf) EGL_TRUE EGL_STREAM_IMAGE_REMOVE_NV aux]) surf aux
           = (h2, surf2)"
    and "\<not> freeImages surf"
  shows "PumpLoop e h surf = PumpLoop e h2 surf2"
proof -
  have "PumpStep e h surf = (h2, surf2, LoopNext)"
    using assms by (simp add: PumpStep_def)
  moreover have "\<not> freeImages surf2"
    using RemoveSurfImage_frame(3) [OF assms(2)] assms(3) by simp
  ultimately show ?thesis using PumpLoop_iter by simp
qed

lemma PumpLoop_post:
  assumes "PumpLoop e h surf = Some (h', surf', r)" and "\<not> freeImages surf"
  shows "\<exists>new. h' = h @ new \<and> new \<noteq> [] \<and> list_all pump_call new
          \<and> length (filter frames_available new) = (if freeImages surf' then 1 else 0)
          \<and> (freeImages surf' \<longrightarrow> frames_available (last new) \<and> r = Ret True)
          \<and> (\<not> freeImages surf' \<and> r = Ret True \<longrightarrow> no_event (last new))
          \<and> (\<forall>f. r = Fault f \<longrightarrow> f = AssertFailed Assert_event \<and> \<not> NDEBUG e)
          \<and> length (images surf') = length (images surf)
          \<and> stream surf' = stream surf \<and> egl surf' = egl surf \<and> base surf' = base surf"
  using PumpLoop_post_aux [OF assms(1)] assms(2) by (simp add: pump_post_def)

lemma PumpSurfEvents_post:
  assumes "PumpSurfEvents e h surf = Some (h', surf', r)"
  shows "\<exists>new. h' = h @ new \<and> new \<noteq> [] \<and> list_all pump_call new
          \<and> length (filter frames_available new) = (if freeImages surf' then 1 else 0)
          \<and> (freeImages surf' \<longrightarrow> frames_available (last new) \<and> r = Ret True)
          \<and> (\<not> freeImages surf' \<and> r = Ret True \<longrightarrow> no_event (last new))
          \<and> (\<forall>f. r = Fault f \<longrightarrow> f = AssertFailed Assert_event \<and> \<not> NDEBUG e)
          \<and> length (images surf') = length (images surf)
          \<and> stream surf' = stream surf \<and> egl surf' = egl surf \<and> base surf' = base surf"
  using PumpLoop_post [of e h "surf\<lparr>freeImages := False\<rparr>" h' surf' r] assms
  by (simp add: PumpSurfEvents_def)

lemma replicate_MAX: "replicate MAX_STREAM_IMAGES x = [x, x, x, x, x, x, x, x, x, x]"
  by (simp add: numeral_eq_Suc)

lemma scripted_sel:
  "NDEBUG (scripted sc) = s_ndebug sc"
  "QueryStreamConsumerEventNV (scripted sc) h st =
     nth_or (0, OtherEvent 0, EGL_NO_IMAGE_KHR) (s_events sc) (length (filter is_query h))"
  "CreateImageKHR (scripted sc) h st =
     nth_or EGL_NO_IMAGE_KHR (s_images sc) (length (filter is_create h))"
  "StreamAcquireImageNV (scripted sc) h st =
     nth_or (False, EGL_NO_IMAGE_KHR) (s_acquires sc) (length (filter is_acquire h))"
  "ExportDMABUFImageQueryMESA (scripted sc) h img = s_export_query sc"
  "ExportDMABUFImageMESA (scripted sc) h img = s_export sc"
  "gbm_bo_import (scripted sc) h buf = nth_or NULL (s_imports sc) (length (filter is_import h))"
  "eGbmRefHandle (scripted sc) h d = s_display sc"
  "egl_GetConfigAttrib (scripted sc) h c = s_config sc"
  "calloc (scripted sc) h = s_calloc sc"
  "CreateStreamKHR (scripted sc) h = s_stream sc"
  "StreamImageConsumerConnectNV (scripted sc) h st = s_connect sc"
  "CreateStreamProducerSurfaceKHR (scripted sc) h c st = s_producer sc"
  "eGbmAddObject (scripted sc) h = s_add sc"
  by (simp_all add: scripted_def)

lemmas scripted_simps = scripted_sel script0_def nth_or_def is_query_def is_create_def
  is_acquire_def is_import_def new_surface_def replicate_MAX

lemma PumpStep_first_query:
  assumes "PumpStep e h surf = (h1, surf1, ctl)"
  shows "\<exists>q rest. h1 = h @ q # rest \<and> is_query q"
proof -
  obtain evStatus event aux where q: "QueryStreamConsumerEventNV e h (stream surf) = (evStatus, event, aux)"
    by (cases "QueryStreamConsumerEventNV e h (stream surf)") auto
  let ?q = "QueryEvent (stream surf) evStatus event aux"
  obtain h2 surf2 ok where a: "AddSurfImage e (h @ [?q]) surf = (h2, surf2, ok)"
    by (cases "AddSurfImage e (h @ [?q]) surf") auto
  obtain h3 surf3 where r: "RemoveSurfImage (h @ [?q]) surf aux = (h3, surf3)"
    by (cases "RemoveSurfImage (h @ [?q]) surf aux") auto
  from AddSurfImage_calls [OF a] obtain n2 where n2: "h2 = (h @ [?q]) @ n2" by blast
  from RemoveSurfImage_calls [OF r] obtain n3 where n3: "h3 = (h @ [?q]) @ n3" by blast
  have iq: "is_query ?q" by (simp add: is_query_def)
  have "h1 = h @ [?q] \<or> h1 = h2 \<or> h1 = h3"
    using assms q a r
    by (auto simp: PumpStep_def Let_def split: if_splits EGLenum.splits)
  then show ?thesis
    using n2 n3 iq by (elim disjE) auto
qed

text \<open>The first call that the pump logs is an event query.\<close>

lemma PumpLoop_first_query:
  assumes run: "PumpLoop e h surf = Some y"
  shows "\<exists>q rest. fst y = h @ q # rest \<and> is_query q"
proof (rule PumpLoop_induct [where P = "\<lambda>h surf y. \<exists>q rest. fst y = h @ q # rest \<and> is_query q", OF run])
  fix h surf h1 surf1 ctl
  assume st: "PumpStep e h surf = (h1, surf1, ctl)"
  from PumpStep_first_query [OF st]
  show "\<exists>q rest. fst (h1, surf1, case ctl of LoopBreak \<Rightarrow> Ret True | LoopReturn b \<Rightarrow> Ret b
                                | LoopAbort f \<Rightarrow> Fault f | LoopNext \<Rightarrow> Ret True) = h @ q # rest
          \<and> is_query q"
    by simp
next
  fix h surf h1 surf1 y
  assume st: "PumpStep e h surf = (h1, surf1, LoopNext)"
    and IH: "\<exists>q rest. fst y = h1 @ q # rest \<and> is_query q"
  from PumpStep_first_query [OF st] obtain q r1 where q: "h1 = h @ q # r1" "is_query q" by blast
  from IH obtain q' r2 where "fst y = h1 @ q' # r2" by blast
  with q have "fst y = h @ q # (r1 @ q' # r2) \<and> is_query q" by simp
  then show "\<exists>q rest. fst y = h @ q # rest \<and> is_query q" by blast
qed

text \<open>
  C1, as amended. A pump call that returns has reset the hint first, so its result does
  not depend on the hint's old value. The first call it makes is an event query, and
  all it calls are event queries, image creations, image destructions and buffer-object
  destructions. On return the hint is true exactly when the last thing the call did was
  to receive "frames available", which is then the only such event of the call, and the
  pump reports success; a pump that reports success with the hint false stopped at a
  query that delivered no event.
\<close>

theorem PumpSurfEvents_fresh_hint:
  assumes "PumpSurfEvents e h surf = Some (h', surf', r)"
  shows "PumpSurfEvents e h (surf\<lparr>freeImages := b\<rparr>) = Some (h', surf', r) \<and>
         (\<exists>new. h' = h @ new \<and> new \<noteq> [] \<and> is_query (hd new) \<and> list_all pump_call new
            \<and> length (filter frames_available new) = (if freeImages surf' then 1 else 0)
            \<and> (freeImages surf' \<longrightarrow> frames_available (last new) \<and> r = Ret True)
            \<and> (\<not> freeImages surf' \<and> r = Ret True \<longrightarrow> no_event (last new)))"
proof
  show "PumpSurfEvents e h (surf\<lparr>freeImages := b\<rparr>) = Some (h', surf', r)"
    using assms by (simp add: PumpSurfEvents_def)
  from PumpSurfEvents_post [OF assms] obtain new where
    n: "h' = h @ new" "new \<noteq> []" "list_all pump_call new"
       "length (filter frames_available new) = (if freeImages surf' then 1 else 0)"
       "freeImages surf' \<longrightarrow> frames_available (last new) \<and> r = Ret True"
       "\<not> freeImages surf' \<and> r = Ret True \<longrightarrow> no_event (last new)"
    by blast
  have "PumpLoop e h (surf\<lparr>freeImages := False\<rparr>) = Some (h', surf', r)"
    using assms by (simp add: PumpSurfEvents_def)
  from PumpLoop_first_query [OF this] obtain q rest where q: "h' = h @ q # rest" "is_query q"
    by auto
  from q(1) n(1) have "new = q # rest" by simp
  with q(2) have "is_query (hd new)" by simp
  with n show "\<exists>new. h' = h @ new \<and> new \<noteq> [] \<and> is_query (hd new) \<and> list_all pump_call new
            \<and> length (filter frames_available new) = (if freeImages surf' then 1 else 0)
            \<and> (freeImages surf' \<longrightarrow> frames_available (last new) \<and> r = Ret True)
            \<and> (\<not> freeImages surf' \<and> r = Ret True \<longrightarrow> no_event (last new))"
    by blast
qed

text \<open>
  The pump can stop without "frames available": when the first query delivers no event,
  it returns true at once, with no such event in its log and the hint reset to false.
\<close>

theorem pump_no_event_counterexample:
  "PumpSurfEvents (scripted script0) [] ((new_surface 1)\<lparr>freeImages := True\<rparr>)
     = Some ([QueryEvent 0 0 (OtherEvent 0) 0], new_surface 1, Ret True)
   \<and> filter frames_available [QueryEvent 0 0 (OtherEvent 0) 0] = []
   \<and> \<not> freeImages (new_surface 1)"
  unfolding PumpSurfEvents_def
  by (subst PumpLoop_no_event [where evStatus = 0 and event = "OtherEvent 0" and aux = 0])
     (simp_all add: scripted_simps frames_available_def)

lemma add_available_run:
  "PumpSurfEvents (scripted script_add_available) [] (new_surface 1)
   = Some ([QueryEvent 0 EGL_TRUE EGL_STREAM_IMAGE_ADD_NV 0, CreateImage 0 11,
            QueryEvent 0 EGL_TRUE EGL_STREAM_IMAGE_AVAILABLE_NV 0],
           surface_one_image, Ret True)"
proof -
  let ?e = "scripted script_add_available"
  let ?s0 = "(new_surface 1)\<lparr>freeImages := False\<rparr>"
  let ?s1 = "?s0\<lparr>images := (images ?s0)[0 := (images ?s0 ! 0)\<lparr>image := 11\<rparr>]\<rparr>"
  have add: "AddSurfImage ?e [QueryEvent 0 EGL_TRUE EGL_STREAM_IMAGE_ADD_NV 0] ?s0
               = ([QueryEvent 0 EGL_TRUE EGL_STREAM_IMAGE_ADD_NV 0, CreateImage 0 11], ?s1, True)"
    by (simp add: AddSurfImage_def slot_scan.simps scripted_simps
          script_add_available_def Let_def)
  have q: "QueryStreamConsumerEventNV ?e [] (stream ?s0) = (EGL_TRUE, EGL_STREAM_IMAGE_ADD_NV, 0)"
    by (simp add: scripted_simps script_add_available_def)
  have s0: "stream ?s0 = 0" "\<not> freeImages ?s0"
    by (simp_all add: scripted_simps)
  have 1: "PumpLoop ?e [] ?s0 =
             PumpLoop ?e [QueryEvent 0 EGL_TRUE EGL_STREAM_IMAGE_ADD_NV 0, CreateImage 0 11] ?s1"
    using PumpLoop_add [OF q, of _ _ True] add s0 by simp
  have 2: "PumpLoop ?e [QueryEvent 0 EGL_TRUE EGL_STREAM_IMAGE_ADD_NV 0, CreateImage 0 11] ?s1 =
             Some ([QueryEvent 0 EGL_TRUE EGL_STREAM_IMAGE_ADD_NV 0, CreateImage 0 11,
                    QueryEvent 0 EGL_TRUE EGL_STREAM_IMAGE_AVAILABLE_NV 0],
                   ?s1\<lparr>freeImages := True\<rparr>, Ret True)"
    by (subst PumpLoop_available [where aux = 0])
       (simp_all add: scripted_simps script_add_available_def)
  show ?thesis
    unfolding PumpSurfEvents_def 1 2
    by (simp add: surface_one_image_def scripted_simps)
qed

theorem PumpSurfEvents_fresh_hint_witness:
  "PumpSurfEvents (scripted script_add_available) [] (new_surface 1)
     = Some ([QueryEvent 0 EGL_TRUE EGL_STREAM_IMAGE_ADD_NV 0, CreateImage 0 11,
              QueryEvent 0 EGL_TRUE EGL_STREAM_IMAGE_AVAILABLE_NV 0],
             surface_one_image, Ret True)
   \<and> PumpSurfEvents (scripted script_add_available) [] ((new_surface 1)\<lparr>freeImages := True\<rparr>)
     = Some ([QueryEvent 0 EGL_TRUE EGL_STREAM_IMAGE_ADD_NV 0, CreateImage 0 11,
              QueryEvent 0 EGL_TRUE EGL_STREAM_IMAGE_AVAILABLE_NV 0],
             surface_one_image, Ret True)
   \<and> freeImages surface_one_image
   \<and> frames_available (QueryEvent 0 EGL_TRUE EGL_STREAM_IMAGE_AVAILABLE_NV 0)"
  using add_available_run PumpSurfEvents_fresh_hint [OF add_available_run, of True]
  by (simp add: surface_one_image_def frames_available_def)

lemma all_less_MAX:
  "(\<forall>j<MAX_STREAM_IMAGES. P j) \<longleftrightarrow>
     P 0 \<and> P 1 \<and> P 2 \<and> P 3 \<and> P 4 \<and> P 5 \<and> P 6 \<and> P 7 \<and> P 8 \<and> P 9"
proof -
  have "{..<MAX_STREAM_IMAGES} = {0, 1, 2, 3, 4, 5, 6, 7, 8, 9}" by auto
  then have "(\<forall>j<MAX_STREAM_IMAGES. P j) \<longleftrightarrow> (\<forall>j\<in>{0, 1, 2, 3, 4, 5, 6, 7, 8, 9::nat}. P j)"
    by (metis lessThan_iff)
  then show ?thesis by simp
qed

lemma AddSurfImage_full:
  assumes "\<forall>j<MAX_STREAM_IMAGES. image (images surf ! j) \<noteq> EGL_NO_IMAGE_KHR \<or> bo (images surf ! j) \<noteq> NULL"
  shows "AddSurfImage e h surf = (h, surf, False)"
proof -
  have "slot_scan (\<lambda>sl. image sl = EGL_NO_IMAGE_KHR \<and> bo sl = NULL) (images surf) 0 = MAX_STREAM_IMAGES"
    using assms by (intro slot_scan_none) auto
  then show ?thesis by (simp add: AddSurfImage_def)
qed

text \<open>
  C2. When the pump receives "image added" while every one of the 10 slots is occupied
  (holds a frame image or a buffer object), the attempt to claim a slot fails without
  creating an image, the pump returns false, and the surface, with every slot's image,
  buffer object and locked flag, is as it was before the event.
\<close>

theorem pump_add_full_pool:
  assumes "\<forall>j<MAX_STREAM_IMAGES. image (images surf ! j) \<noteq> EGL_NO_IMAGE_KHR \<or> bo (images surf ! j) \<noteq> NULL"
    and "QueryStreamConsumerEventNV e h (stream surf) = (EGL_TRUE, EGL_STREAM_IMAGE_ADD_NV, aux)"
  shows "AddSurfImage e (h @ [QueryEvent (stream surf) EGL_TRUE EGL_STREAM_IMAGE_ADD_NV aux]) surf
           = (h @ [QueryEvent (stream surf) EGL_TRUE EGL_STREAM_IMAGE_ADD_NV aux], surf, False)
         \<and> PumpLoop e h surf
           = Some (h @ [QueryEvent (stream surf) EGL_TRUE EGL_STREAM_IMAGE_ADD_NV aux], surf, Ret False)"
proof -
  let ?h1 = "h @ [QueryEvent (stream surf) EGL_TRUE EGL_STREAM_IMAGE_ADD_NV aux]"
  have a: "AddSurfImage e ?h1 surf = (?h1, surf, False)"
    using assms(1) by (rule AddSurfImage_full)
  have "PumpStep e h surf = (?h1, surf, LoopReturn False)"
    using assms(2) a by (simp add: PumpStep_def)
  from PumpLoop_halt [OF this] a show ?thesis by simp
qed

theorem pump_add_full_pool_witness:
  "QueryStreamConsumerEventNV (scripted script_add) [] (stream surface_full)
        = (EGL_TRUE, EGL_STREAM_IMAGE_ADD_NV, 0)
   \<and> PumpLoop (scripted script_add) [] surface_full
        = Some ([QueryEvent 0 EGL_TRUE EGL_STREAM_IMAGE_ADD_NV 0], surface_full, Ret False)"
proof -
  have full: "\<forall>j<MAX_STREAM_IMAGES. image (images surface_full ! j) \<noteq> EGL_NO_IMAGE_KHR
        \<or> bo (images surface_full ! j) \<noteq> NULL"
    unfolding all_less_MAX by (simp add: surface_full_def)
  have q: "QueryStreamConsumerEventNV (scripted script_add) [] (stream surface_full)
        = (EGL_TRUE, EGL_STREAM_IMAGE_ADD_NV, 0)"
    by (simp add: scripted_simps script_add_def)
  have "stream surface_full = 0"
    by (simp add: surface_full_def scripted_simps)
  with pump_add_full_pool [OF full q] q show ?thesis by simp
qed

lemma PumpSurfEvents_false_hint:
  assumes "PumpSurfEvents e h surf = Some (h', surf', Ret False)"
  shows "\<not> freeImages surf'"
  using PumpSurfEvents_post [OF assms] by auto

text \<open>
  C3. When the native window resolves to no surface, HasFreeBuffers returns 0 and calls
  nothing. When the surface's hint is already true it returns 1, again without a call
  and without a change. Otherwise it runs the pump once: if the pump does not return,
  neither does HasFreeBuffers; if the pump returns, normally or by a failed assertion,
  HasFreeBuffers ends in the pump's state, and what it returns is the hint the pump left
  (also when the pump reported failure, where the hint is false).
\<close>

theorem HasFreeBuffers_hint:
  "(GetSurf s = None \<longrightarrow> eGbmSurfaceHasFreeBuffers e h s = Some (h, s, Ret 0))
   \<and> (\<forall>surf. GetSurf s = Some surf \<and> freeImages surf \<longrightarrow>
         eGbmSurfaceHasFreeBuffers e h s = Some (h, s, Ret 1))
   \<and> (\<forall>surf. GetSurf s = Some surf \<and> \<not> freeImages surf \<longrightarrow>
         (PumpSurfEvents e h surf = None \<longrightarrow> eGbmSurfaceHasFreeBuffers e h s = None)
         \<and> (\<forall>h1 surf1 r. PumpSurfEvents e h surf = Some (h1, surf1, r) \<longrightarrow>
              eGbmSurfaceHasFreeBuffers e h s =
                Some (h1, SetSurf s (Some surf1),
                      case r of Fault f \<Rightarrow> Fault f
                              | Ret ok \<Rightarrow> Ret (if freeImages surf1 then 1 else 0))))"
proof (intro conjI allI impI)
  show "eGbmSurfaceHasFreeBuffers e h s = Some (h, s, Ret 0)" if "GetSurf s = None"
    using that by (simp add: eGbmSurfaceHasFreeBuffers_def)
next
  fix surf
  show "eGbmSurfaceHasFreeBuffers e h s = Some (h, s, Ret 1)"
    if "GetSurf s = Some surf \<and> freeImages surf"
    using that by (simp add: eGbmSurfaceHasFreeBuffers_def)
next
  fix surf
  show "eGbmSurfaceHasFreeBuffers e h s = None"
    if "GetSurf s = Some surf \<and> \<not> freeImages surf" "PumpSurfEvents e h surf = None"
    using that by (simp add: eGbmSurfaceHasFreeBuffers_def)
next
  fix surf h1 surf1 r
  assume g: "GetSurf s = Some surf \<and> \<not> freeImages surf"
    and p: "PumpSurfEvents e h surf = Some (h1, surf1, r)"
  show "eGbmSurfaceHasFreeBuffers e h s =
          Some (h1, SetSurf s (Some surf1),
                case r of Fault f \<Rightarrow> Fault f | Ret ok \<Rightarrow> Ret (if freeImages surf1 then 1 else 0))"
  proof (cases r)
    case (Fault f)
    with g p show ?thesis by (simp add: eGbmSurfaceHasFreeBuffers_def)
  next
    case (Ret ok)
    show ?thesis
    proof (cases ok)
      case True
      with g p Ret show ?thesis by (simp add: eGbmSurfaceHasFreeBuffers_def)
    next
      case False
      with p Ret have "\<not> freeImages surf1" using PumpSurfEvents_false_hint by simp
      with g p Ret False show ?thesis by (simp add: eGbmSurfaceHasFreeBuffers_def)
    qed
  qed
qed

theorem HasFreeBuffers_hint_witness:
  "GetSurf None = None
   \<and> eGbmSurfaceHasFreeBuffers (scripted script0) [] None = Some ([], None, Ret 0)
   \<and> GetSurf (Some (window (Some surface_one_image))) = Some surface_one_image
   \<and> freeImages surface_one_image
   \<and> eGbmSurfaceHasFreeBuffers (scripted script0) [] (Some (window (Some surface_one_image)))
        = Some ([], Some (window (Some surface_one_image)), Ret 1)
   \<and> GetSurf (Some (window (Some (new_surface 1)))) = Some (new_surface 1)
   \<and> \<not> freeImages (new_surface 1)
   \<and> eGbmSurfaceHasFreeBuffers (scripted script_add_available) [] (Some (window (Some (new_surface 1))))
        = Some ([QueryEvent 0 EGL_TRUE EGL_STREAM_IMAGE_ADD_NV 0, CreateImage 0 11,
                 QueryEvent 0 EGL_TRUE EGL_STREAM_IMAGE_AVAILABLE_NV 0],
                Some (window (Some surface_one_image)), Ret 1)"
proof -
  have 1: "GetSurf None = None" by (simp add: GetSurf_def)
  have 2: "GetSurf (Some (window (Some surface_one_image))) = Some surface_one_image
            \<and> freeImages surface_one_image"
    by (simp add: GetSurf_def window_def surface_one_image_def)
  have 3: "GetSurf (Some (window (Some (new_surface 1)))) = Some (new_surface 1)
            \<and> \<not> freeImages (new_surface 1)"
    by (simp add: GetSurf_def window_def new_surface_def)
  note t = HasFreeBuffers_hint [of None "scripted script0" "[]"]
    HasFreeBuffers_hint [of "Some (window (Some surface_one_image))" "scripted script0" "[]"]
    HasFreeBuffers_hint [of "Some (window (Some (new_surface 1)))" "scripted script_add_available" "[]"]
  from t(1) 1 have a: "eGbmSurfaceHasFreeBuffers (scripted script0) [] None = Some ([], None, Ret 0)"
    by blast
  from t(2) 2 have b: "eGbmSurfaceHasFreeBuffers (scripted script0) [] (Some (window (Some surface_one_image)))
        = Some ([], Some (window (Some surface_one_image)), Ret 1)"
    by blast
  from t(3) 3 add_available_run
  have c: "eGbmSurfaceHasFreeBuffers (scripted script_add_available) [] (Some (window (Some (new_surface 1))))
        = Some ([QueryEvent 0 EGL_TRUE EGL_STREAM_IMAGE_ADD_NV 0, CreateImage 0 11,
                 QueryEvent 0 EGL_TRUE EGL_STREAM_IMAGE_AVAILABLE_NV 0],
                SetSurf (Some (window (Some (new_surface 1)))) (Some surface_one_image),
                case Ret True of Fault f \<Rightarrow> Fault f
                   | Ret ok \<Rightarrow> Ret (if freeImages surface_one_image then 1 else 0))"
    by blast
  have "SetSurf (Some (window (Some (new_surface 1)))) (Some surface_one_image)
          = Some (window (Some surface_one_image))"
    by (simp add: SetSurf_def window_def)
  with a b c 1 2 3 show ?thesis by simp
qed

section \<open>Locking and releasing\<close>

lemma slot_update_nth:
  "bo ((xs[i := (xs ! i)\<lparr>locked := v\<rparr>]) ! i) = bo (xs ! i)"
  "image ((xs[i := (xs ! i)\<lparr>locked := v\<rparr>]) ! i) = image (xs ! i)"
  "((xs[i := (xs ! i)\<lparr>locked := v\<rparr>]) ! i)\<lparr>locked := w\<rparr> = (xs ! i)\<lparr>locked := w\<rparr>"
proof -
  show "bo ((xs[i := (xs ! i)\<lparr>locked := v\<rparr>]) ! i) = bo (xs ! i)"
    by (cases "i < length xs") (simp_all add: list_update_beyond)
  show "image ((xs[i := (xs ! i)\<lparr>locked := v\<rparr>]) ! i) = image (xs ! i)"
    by (cases "i < length xs") (simp_all add: list_update_beyond)
  show "((xs[i := (xs ! i)\<lparr>locked := v\<rparr>]) ! i)\<lparr>locked := w\<rparr> = (xs ! i)\<lparr>locked := w\<rparr>"
    by (cases "i < length xs") (simp_all add: list_update_beyond)
qed

lemma Materialize_fails:
  "snd (Materialize e h g img) = Ret NULL \<longleftrightarrow>
     (case ExportDMABUFImageQueryMESA e h img of (ok, format, planes, modifier) \<Rightarrow>
        \<not> ok \<or>
        (planes = 1 \<or> NDEBUG e) \<and>
        (case ExportDMABUFImageMESA e (h @ [ExportQuery img ok format planes modifier]) img of
           (ok2, fd, stride, offset) \<Rightarrow>
             \<not> ok2 \<or>
             gbm_bo_import e (h @ [ExportQuery img ok format planes modifier,
                                   Export img ok2 fd stride offset])
               \<lparr>buf_width = v0_width g, buf_height = v0_height g, buf_format = v0_format g,
                  buf_num_fds = 1, buf_fd0 = fd, buf_stride0 = stride, buf_offset0 = offset,
                  buf_modifier = modifier\<rparr> = NULL))"
  by (auto simp: Materialize_def Let_def split: prod.splits)

text \<open>
  C4. In a LockFrontBuffer call whose pump succeeds and whose acquire returns a frame
  image found in slot \<open>i\<close> with no buffer object yet, a failed materialization (the
  export query, the export or the import fails: \<open>Materialize\<close> leaves \<open>NULL\<close>, see
  \<open>Materialize_fails\<close>) ends the call as follows: slot \<open>i\<close> is unlocked and otherwise as
  the pump left it, the last two calls are the report of \<open>EGL_BAD_ALLOC\<close> and the release
  of the acquired image with \<open>EGL_NO_SYNC_KHR\<close>, and the call returns \<open>NULL\<close>.
\<close>

theorem LockFrontBuffer_materialize_fails:
  assumes "priv g = Some surf"
    and "PumpSurfEvents e h surf = Some (h1, surf1, Ret True)"
    and "StreamAcquireImageNV e h1 (stream surf1) = (True, img)"
    and "i = slot_scan (\<lambda>sl. image sl = img) (images surf1) 0"
    and "i < MAX_STREAM_IMAGES"
    and "bo (images surf1 ! i) = NULL"
    and "Materialize e (h1 @ [AcquireImage (stream surf1) EGL_NO_SYNC_KHR True img]) g img
           = (h2, Ret NULL)"
  shows "eGbmSurfaceLockFrontBuffer e h (Some g) =
           Some (h2 @ [SetError EGL_BAD_ALLOC, ReleaseImage (stream surf1) img EGL_NO_SYNC_KHR],
                 Some (g\<lparr>priv := Some (surf1\<lparr>freeImages := False,
                          images := (images surf1)[i := (images surf1 ! i)\<lparr>locked := False\<rparr>]\<rparr>)\<rparr>),
                 Ret NULL)"
proof -
  have "LockAcquire e h1 surf1 g =
          (h2 @ [SetError EGL_BAD_ALLOC, ReleaseImage (stream surf1) img EGL_NO_SYNC_KHR],
           surf1\<lparr>freeImages := False,
                  images := (images surf1)[i := (images surf1 ! i)\<lparr>locked := False\<rparr>]\<rparr>,
           Ret NULL)"
    using assms(3-7) by (simp add: LockAcquire_def Let_def slot_update_nth)
  with assms(1,2) show ?thesis
    by (simp add: eGbmSurfaceLockFrontBuffer_def SetSurf_def)
qed

lemma export_fails_pump:
  "PumpSurfEvents (scripted script_export_fails) [] surface_one_image
     = Some ([QueryEvent 0 EGL_TRUE EGL_STREAM_IMAGE_AVAILABLE_NV 0], surface_one_image, Ret True)"
  unfolding PumpSurfEvents_def
  by (subst PumpLoop_available [where aux = 0])
     (simp_all add: scripted_simps script_export_fails_def surface_one_image_def)

theorem LockFrontBuffer_materialize_fails_witness:
  "eGbmSurfaceLockFrontBuffer (scripted script_export_fails) [] (Some (window (Some surface_one_image)))
     = Some ([QueryEvent 0 EGL_TRUE EGL_STREAM_IMAGE_AVAILABLE_NV 0,
              AcquireImage 0 EGL_NO_SYNC_KHR True 11,
              ExportQuery 11 False 0 0 0,
              SetError EGL_BAD_ALLOC,
              ReleaseImage 0 11 EGL_NO_SYNC_KHR],
             Some (window (Some ((new_surface 1)\<lparr>images := (images (new_surface 1))
                      [0 := \<lparr>image = 11, bo = NULL, locked = False\<rparr>]\<rparr>))),
             Ret NULL)"
proof -
  let ?e = "scripted script_export_fails"
  let ?h1 = "[QueryEvent 0 EGL_TRUE EGL_STREAM_IMAGE_AVAILABLE_NV 0]"
  have 1: "priv (window (Some surface_one_image)) = Some surface_one_image"
    by (simp add: window_def)
  have 3: "StreamAcquireImageNV ?e ?h1 (stream surface_one_image) = (True, 11)"
    by (simp add: scripted_simps script_export_fails_def)
  have 4: "0 = slot_scan (\<lambda>sl. image sl = 11) (images surface_one_image) 0"
    by (simp add: slot_scan.simps surface_one_image_def scripted_simps)
  have 6: "bo (images surface_one_image ! 0) = NULL"
    by (simp add: surface_one_image_def scripted_simps)
  have 7: "Materialize ?e (?h1 @ [AcquireImage (stream surface_one_image) EGL_NO_SYNC_KHR True 11])
             (window (Some surface_one_image)) 11
           = ([QueryEvent 0 EGL_TRUE EGL_STREAM_IMAGE_AVAILABLE_NV 0,
               AcquireImage 0 EGL_NO_SYNC_KHR True 11, ExportQuery 11 False 0 0 0], Ret NULL)"
    by (simp add: Materialize_def scripted_simps script_export_fails_def surface_one_image_def)
  from LockFrontBuffer_materialize_fails [OF 1 export_fails_pump 3 4 _ 6 7]
  show ?thesis
    by (simp add: window_def surface_one_image_def scripted_simps)
qed

text \<open>
  C10. When the frame image that the acquire returns is recorded in some slot of the
  10-slot array, the scan of LockFrontBuffer stops at an index below 10 whose slot holds
  that image, so the pointer \<open>bo\<close> is set and \<open>assert(bo)\<close> holds: the call neither
  fails that assertion nor dereferences a null pointer. Every later access uses that same
  index, also the write to \<open>surf->images[i].locked\<close> after \<open>fail\<close>.
\<close>

theorem LockAcquire_slot_in_bounds:
  assumes "StreamAcquireImageNV e h (stream surf) = (True, img)"
    and "j < MAX_STREAM_IMAGES" and "image (images surf ! j) = img"
  shows "slot_scan (\<lambda>sl. image sl = img) (images surf) 0 < MAX_STREAM_IMAGES
         \<and> image (images surf ! slot_scan (\<lambda>sl. image sl = img) (images surf) 0) = img
         \<and> (\<forall>h' surf' res. LockAcquire e h surf g = (h', surf', res) \<longrightarrow>
               res \<noteq> Fault (AssertFailed Assert_bo) \<and> res \<noteq> Fault NullDeref
               \<and> (\<exists>v. images surf' = (images surf)
                     [slot_scan (\<lambda>sl. image sl = img) (images surf) 0 := v]))"
proof -
  let ?i = "slot_scan (\<lambda>sl. image sl = img) (images surf) 0"
  have lt: "?i < MAX_STREAM_IMAGES"
    using slot_scan_some [of j "\<lambda>sl. image sl = img" "images surf"] assms(2,3) by simp
  have im: "image (images surf ! ?i) = img"
    using slot_scan_found [of "\<lambda>sl. image sl = img" "images surf" 0] lt by simp
  have "res \<noteq> Fault (AssertFailed Assert_bo) \<and> res \<noteq> Fault NullDeref
        \<and> (\<exists>v. images surf' = (images surf)[?i := v])"
    if "LockAcquire e h surf g = (h', surf', res)" for h' surf' res
  proof -
    obtain h2 m where mat: "Materialize e (h @ [AcquireImage (stream surf) EGL_NO_SYNC_KHR True img]) g img = (h2, m)"
      by (cases "Materialize e (h @ [AcquireImage (stream surf) EGL_NO_SYNC_KHR True img]) g img") auto
    have mf: "m \<noteq> Fault (AssertFailed Assert_bo) \<and> m \<noteq> Fault NullDeref"
      using mat by (auto simp: Materialize_def Let_def split: prod.splits if_splits)
    show ?thesis
      using that assms(1) lt mat mf
      by (auto simp: LockAcquire_def Let_def slot_update_nth split: if_splits outcome.splits)
  qed
  with lt im show ?thesis by blast
qed


theorem LockAcquire_slot_in_bounds_witness:
  "StreamAcquireImageNV (scripted script_export_fails)
      [QueryEvent 0 EGL_TRUE EGL_STREAM_IMAGE_AVAILABLE_NV 0] (stream surface_one_image) = (True, 11)
   \<and> (0::nat) < MAX_STREAM_IMAGES
   \<and> image (images surface_one_image ! 0) = 11
   \<and> slot_scan (\<lambda>sl. image sl = 11) (images surface_one_image) 0 < MAX_STREAM_IMAGES
   \<and> image (images surface_one_image ! slot_scan (\<lambda>sl. image sl = 11) (images surface_one_image) 0) = 11"
proof -
  have 1: "StreamAcquireImageNV (scripted script_export_fails)
      [QueryEvent 0 EGL_TRUE EGL_STREAM_IMAGE_AVAILABLE_NV 0] (stream surface_one_image) = (True, 11)"
    by (simp add: scripted_simps script_export_fails_def)
  have 2: "(0::nat) < MAX_STREAM_IMAGES" by simp
  have 3: "image (images surface_one_image ! 0) = 11"
    by (simp add: surface_one_image_def scripted_simps)
  from LockAcquire_slot_in_bounds [OF 1 2 3] 1 2 3 show ?thesis by blast
qed





section \<open>Invariants of the pump\<close>

lemma PumpStep_prefix:
  assumes "PumpStep e h surf = (h1, surf1, ctl)"
  shows "\<exists>new. h1 = h @ new \<and> list_all pump_call new"
proof -
  obtain evStatus event aux where q: "QueryStreamConsumerEventNV e h (stream surf) = (evStatus, event, aux)"
    by (cases "QueryStreamConsumerEventNV e h (stream surf)") auto
  let ?q = "QueryEvent (stream surf) evStatus event aux"
  obtain h2 surf2 ok where a: "AddSurfImage e (h @ [?q]) surf = (h2, surf2, ok)"
    by (cases "AddSurfImage e (h @ [?q]) surf") auto
  obtain h3 surf3 where r: "RemoveSurfImage (h @ [?q]) surf aux = (h3, surf3)"
    by (cases "RemoveSurfImage (h @ [?q]) surf aux") auto
  from AddSurfImage_calls [OF a] obtain n2 where n2: "h2 = (h @ [?q]) @ n2" "list_all pump_call n2"
    by blast
  from RemoveSurfImage_calls [OF r] obtain n3 where n3: "h3 = (h @ [?q]) @ n3" "list_all pump_call n3"
    by blast
  have pq: "pump_call ?q" by (simp add: pump_call_def)
  have "h1 = h @ [?q] \<or> h1 = h2 \<or> h1 = h3"
    using assms q a r
    by (auto simp: PumpStep_def Let_def split: if_splits EGLenum.splits)
  then show ?thesis
    using n2 n3 pq by (elim disjE) auto
qed

lemma PumpLoop_induct2 [consumes 1, case_names halt iter]:
  assumes run: "PumpLoop e h surf = Some y"
    and halt: "\<And>h surf h1 surf1 ctl.
        PumpStep e h surf = (h1, surf1, ctl) \<Longrightarrow> \<not> (ctl = LoopNext \<and> \<not> freeImages surf1) \<Longrightarrow>
        P h surf (h1, surf1, case ctl of LoopBreak \<Rightarrow> Ret True | LoopReturn b \<Rightarrow> Ret b
                                | LoopAbort f \<Rightarrow> Fault f | LoopNext \<Rightarrow> Ret True)"
    and iter: "\<And>h surf h1 surf1 y.
        PumpStep e h surf = (h1, surf1, LoopNext) \<Longrightarrow> \<not> freeImages surf1 \<Longrightarrow>
        PumpLoop e h1 surf1 = Some y \<Longrightarrow> P h1 surf1 y \<Longrightarrow> P h surf y"
  shows "P h surf y"
proof -
  have "PumpLoop e h surf = Some y \<and> P h surf y"
  proof (rule PumpLoop_induct [where P = "\<lambda>h surf y. PumpLoop e h surf = Some y \<and> P h surf y", OF run])
    fix h surf h1 surf1 ctl
    assume st: "PumpStep e h surf = (h1, surf1, ctl)"
      and fin: "\<not> (ctl = LoopNext \<and> \<not> freeImages surf1)"
    from PumpLoop_halt [OF st fin] halt [OF st fin]
    show "PumpLoop e h surf = Some (h1, surf1, case ctl of LoopBreak \<Rightarrow> Ret True | LoopReturn b \<Rightarrow> Ret b
                                | LoopAbort f \<Rightarrow> Fault f | LoopNext \<Rightarrow> Ret True)
          \<and> P h surf (h1, surf1, case ctl of LoopBreak \<Rightarrow> Ret True | LoopReturn b \<Rightarrow> Ret b
                                | LoopAbort f \<Rightarrow> Fault f | LoopNext \<Rightarrow> Ret True)"
      by simp
  next
    fix h surf h1 surf1 y
    assume st: "PumpStep e h surf = (h1, surf1, LoopNext)" and nf: "\<not> freeImages surf1"
      and IH: "PumpLoop e h1 surf1 = Some y \<and> P h1 surf1 y"
    from PumpLoop_iter [OF st nf] IH iter [OF st nf] show "PumpLoop e h surf = Some y \<and> P h surf y"
      by simp
  qed
  then show ?thesis by simp
qed

lemma PumpLoop_prefix:
  assumes "PumpLoop e h surf = Some (h', surf', r)"
  shows "\<exists>new. h' = h @ new \<and> list_all pump_call new"
proof -
  have "\<exists>new. fst y = h @ new \<and> list_all pump_call new" if "PumpLoop e h surf = Some y" for y
    using that
  proof (induct rule: PumpLoop_induct2)
    case (halt h surf h1 surf1 ctl)
    then show ?case using PumpStep_prefix by simp
  next
    case (iter h surf h1 surf1 y)
    from PumpStep_prefix [OF iter(1)] obtain n1 where "h1 = h @ n1" "list_all pump_call n1" by blast
    moreover from iter(4) obtain n2 where "fst y = h1 @ n2" "list_all pump_call n2" by blast
    ultimately have "fst y = h @ (n1 @ n2) \<and> list_all pump_call (n1 @ n2)" by simp
    then show ?case by blast
  qed
  from this [OF assms] show ?thesis by simp
qed

text \<open>
  A property of the surface that every pass through the loop body keeps, as long as the
  pass logs no call of a given kind, holds after the pump if the pump logs no such call.
\<close>

lemma PumpLoop_invariant:
  assumes run: "PumpLoop e h surf = Some (h', surf', r)"
    and step: "\<And>h surf h1 surf1 ctl. PumpStep e h surf = (h1, surf1, ctl) \<Longrightarrow> I surf \<Longrightarrow>
                 \<forall>c\<in>set (drop (length h) h1). \<not> bad c \<Longrightarrow> I surf1"
    and init: "I surf"
    and good: "\<forall>c\<in>set (drop (length h) h'). \<not> bad c"
  shows "I surf'"
proof -
  have "I surf \<longrightarrow> (\<forall>c\<in>set (drop (length h) (fst y)). \<not> bad c) \<longrightarrow> I (fst (snd y))"
    if "PumpLoop e h surf = Some y" for y
    using that
  proof (induct rule: PumpLoop_induct2)
    case (halt h surf h1 surf1 ctl)
    then show ?case using step by auto
  next
    case (iter h surf h1 surf1 y)
    from PumpStep_prefix [OF iter(1)] obtain n1 where n1: "h1 = h @ n1" by blast
    obtain h' surf' r where y: "y = (h', surf', r)" by (cases y) auto
    from PumpLoop_prefix [of e h1 surf1 h' surf' r] iter(3) y obtain n2 where n2: "h' = h1 @ n2"
      by auto
    show ?case
    proof (intro impI)
      assume i: "I surf" and g: "\<forall>c\<in>set (drop (length h) (fst y)). \<not> bad c"
      from g y n1 n2 have g1: "\<forall>c\<in>set n1. \<not> bad c" and g2: "\<forall>c\<in>set n2. \<not> bad c" by auto
      from step [OF iter(1) i] g1 n1 have "I surf1" by simp
      with iter(4) g2 y n2 show "I (fst (snd y))" by simp
    qed
  qed
  from this [OF run] init good show ?thesis by simp
qed

section \<open>A slot that keeps a destroyed buffer object\<close>

lemma AddSurfImage_other_slot:
  assumes "AddSurfImage e h surf = (h1, surf1, ok)"
    and "\<not> (image (images surf ! i) = EGL_NO_IMAGE_KHR \<and> bo (images surf ! i) = NULL)"
  shows "images surf1 ! i = images surf ! i"
proof -
  let ?k = "slot_scan (\<lambda>sl. image sl = EGL_NO_IMAGE_KHR \<and> bo sl = NULL) (images surf) 0"
  show ?thesis
  proof (cases "?k < MAX_STREAM_IMAGES")
    case True
    from slot_scan_found [OF True] assms(2) have "?k \<noteq> i" by auto
    with assms(1) True show ?thesis by (auto simp: AddSurfImage_def Let_def)
  next
    case False
    with assms(1) show ?thesis by (auto simp: AddSurfImage_def Let_def)
  qed
qed

lemma RemoveSurfImage_other_slot:
  assumes "RemoveSurfImage h surf img = (h1, surf1)" and "image (images surf ! i) \<noteq> img"
  shows "images surf1 ! i = images surf ! i"
proof -
  let ?k = "slot_scan (\<lambda>sl. image sl = img) (images surf) 0"
  show ?thesis
  proof (cases "?k < MAX_STREAM_IMAGES")
    case True
    from slot_scan_found [OF True] assms(2) have "?k \<noteq> i" by auto
    with assms(1) True show ?thesis by (auto simp: RemoveSurfImage_def Let_def split: if_splits)
  next
    case False
    with assms(1) show ?thesis by (auto simp: RemoveSurfImage_def Let_def)
  qed
qed

lemma PumpStep_stale:
  assumes st: "PumpStep e h surf = (h1, surf1, ctl)"
    and inv: "stale_slot i b surf" and b: "b \<noteq> NULL"
    and good: "\<forall>c\<in>set (drop (length h) h1). \<not> removes EGL_NO_IMAGE_KHR c"
  shows "stale_slot i b surf1"
proof -
  obtain evStatus event aux where q: "QueryStreamConsumerEventNV e h (stream surf) = (evStatus, event, aux)"
    by (cases "QueryStreamConsumerEventNV e h (stream surf)") auto
  let ?q = "QueryEvent (stream surf) evStatus event aux"
  from PumpStep_prefix [OF st] obtain new where new: "h1 = h @ new" by blast
  have first: "\<exists>rest. h1 = h @ ?q # rest"
  proof -
    obtain h2 surf2 ok where a: "AddSurfImage e (h @ [?q]) surf = (h2, surf2, ok)"
      by (cases "AddSurfImage e (h @ [?q]) surf") auto
    obtain h3 surf3 where r: "RemoveSurfImage (h @ [?q]) surf aux = (h3, surf3)"
      by (cases "RemoveSurfImage (h @ [?q]) surf aux") auto
    from AddSurfImage_calls [OF a] obtain n2 where "h2 = (h @ [?q]) @ n2" by blast
    moreover from RemoveSurfImage_calls [OF r] obtain n3 where "h3 = (h @ [?q]) @ n3" by blast
    moreover have "h1 = h @ [?q] \<or> h1 = h2 \<or> h1 = h3"
      using st q a r by (auto simp: PumpStep_def Let_def split: if_splits EGLenum.splits)
    ultimately show ?thesis by auto
  qed
  with good have nq: "\<not> removes EGL_NO_IMAGE_KHR ?q" by auto
  have len: "length (images surf1) = length (images surf)" by (rule PumpStep_frame(1) [OF st])
  have "images surf1 ! i = images surf ! i"
  proof (cases "evStatus = EGL_TRUE")
    case False
    with st q show ?thesis by (simp add: PumpStep_def)
  next
    case True
    show ?thesis
    proof (cases event)
      case EGL_STREAM_IMAGE_AVAILABLE_NV
      with st q True show ?thesis by (auto simp: PumpStep_def)
    next
      case EGL_STREAM_IMAGE_ADD_NV
      obtain h2 surf2 ok where a: "AddSurfImage e (h @ [?q]) surf = (h2, surf2, ok)"
        by (cases "AddSurfImage e (h @ [?q]) surf") auto
      with st q True EGL_STREAM_IMAGE_ADD_NV have "surf1 = surf2"
        by (auto simp: PumpStep_def Let_def split: if_splits)
      moreover have "images surf2 ! i = images surf ! i"
        using AddSurfImage_other_slot [OF a, of i] inv b by (simp add: stale_slot_def)
      ultimately show ?thesis by simp
    next
      case EGL_STREAM_IMAGE_REMOVE_NV
      obtain h3 surf3 where r: "RemoveSurfImage (h @ [?q]) surf aux = (h3, surf3)"
        by (cases "RemoveSurfImage (h @ [?q]) surf aux") auto
      with st q True EGL_STREAM_IMAGE_REMOVE_NV have "surf1 = surf3"
        by (auto simp: PumpStep_def Let_def)
      moreover from nq True EGL_STREAM_IMAGE_REMOVE_NV have "aux \<noteq> EGL_NO_IMAGE_KHR"
        by (simp add: removes_def)
      then have "images surf3 ! i = images surf ! i"
        using RemoveSurfImage_other_slot [OF r, of i] inv by (simp add: stale_slot_def)
      ultimately show ?thesis by simp
    next
      case (OtherEvent n)
      with st q True show ?thesis by (auto simp: PumpStep_def Let_def split: if_splits)
    qed
  qed
  with inv len show ?thesis by (simp add: stale_slot_def)
qed

lemma PumpSurfEvents_stale:
  assumes "PumpSurfEvents e h surf = Some (h', surf', r)"
    and "stale_slot i b surf" and "b \<noteq> NULL"
    and "\<forall>c\<in>set (drop (length h) h'). \<not> removes EGL_NO_IMAGE_KHR c"
  shows "stale_slot i b surf'"
proof -
  have run: "PumpLoop e h (surf\<lparr>freeImages := False\<rparr>) = Some (h', surf', r)"
    using assms(1) by (simp add: PumpSurfEvents_def)
  have init: "stale_slot i b (surf\<lparr>freeImages := False\<rparr>)"
    using assms(2) by (simp add: stale_slot_def)
  show ?thesis
    by (rule PumpLoop_invariant [where I = "stale_slot i b" and bad = "removes EGL_NO_IMAGE_KHR",
          OF run _ init assms(4)])
       (rule PumpStep_stale [OF _ _ assms(3)])
qed

lemma LockAcquire_prefix:
  assumes "LockAcquire e h surf g = (h', surf', r)"
  shows "\<exists>new. h' = h @ new \<and> list_all (\<lambda>c. \<not> pump_call c) new"
proof -
  obtain res img where a: "StreamAcquireImageNV e h (stream surf) = (res, img)"
    by (cases "StreamAcquireImageNV e h (stream surf)") auto
  let ?h1 = "h @ [AcquireImage (stream surf) EGL_NO_SYNC_KHR res img]"
  obtain h2 m where m: "Materialize e ?h1 g img = (h2, m)"
    by (cases "Materialize e ?h1 g img") auto
  have "\<exists>n. h2 = ?h1 @ n \<and> list_all (\<lambda>c. \<not> pump_call c) n"
    using m by (auto simp: Materialize_def Let_def pump_call_def split: prod.splits if_splits)
  then obtain n where n: "h2 = ?h1 @ n" "list_all (\<lambda>c. \<not> pump_call c) n" by blast
  have "h' = ?h1 \<or> h' = ?h1 @ [SetError EGL_BAD_SURFACE] \<or> h' = h2
        \<or> h' = h2 @ [SetError EGL_BAD_ALLOC, ReleaseImage (stream surf) img EGL_NO_SYNC_KHR]"
    using assms a m
    by (auto simp: LockAcquire_def Let_def split: if_splits outcome.splits)
  then show ?thesis
    using n by (elim disjE) (auto simp: pump_call_def)
qed

lemma LockAcquire_stale:
  assumes "LockAcquire e h surf g = (h', surf', r)" and "stale_slot i b surf" and "b \<noteq> NULL"
  shows "stale_slot i b surf'"
proof -
  obtain res img where a: "StreamAcquireImageNV e h (stream surf) = (res, img)"
    by (cases "StreamAcquireImageNV e h (stream surf)") auto
  let ?k = "slot_scan (\<lambda>sl. image sl = img) (images surf) 0"
  obtain h2 m where m: "Materialize e (h @ [AcquireImage (stream surf) EGL_NO_SYNC_KHR res img]) g img = (h2, m)"
    by (cases "Materialize e (h @ [AcquireImage (stream surf) EGL_NO_SYNC_KHR res img]) g img") auto
  have il: "i < length (images surf)" using assms(2) by (simp add: stale_slot_def)
  show ?thesis
  proof (cases "?k = i")
    case True
    with assms a il show ?thesis
      by (auto simp: LockAcquire_def Let_def stale_slot_def split: if_splits)
  next
    case False
    with assms a m il show ?thesis
      by (auto simp: LockAcquire_def Let_def stale_slot_def split: if_splits outcome.splits)
  qed
qed


lemma HasFreeBuffers_prefix:
  assumes "eGbmSurfaceHasFreeBuffers e h s = Some (h', s', r)"
  shows "\<exists>new. h' = h @ new"
proof (cases "GetSurf s")
  case None
  with assms show ?thesis by (simp add: eGbmSurfaceHasFreeBuffers_def)
next
  case (Some surf)
  show ?thesis
  proof (cases "freeImages surf")
    case True
    with assms Some show ?thesis by (auto simp: eGbmSurfaceHasFreeBuffers_def)
  next
    case False
    with assms Some obtain surf1 r1 where "PumpSurfEvents e h surf = Some (h', surf1, r1)"
      by (auto simp: eGbmSurfaceHasFreeBuffers_def split: option.splits outcome.splits if_splits)
    from PumpSurfEvents_post [OF this] show ?thesis by blast
  qed
qed

text \<open>
  What a LockFrontBuffer call on a live surface consists of: the pump, and after a
  successful pump the rest of the function.
\<close>

lemma LockFrontBuffer_cases:
  assumes "eGbmSurfaceLockFrontBuffer e h (Some g) = Some (h', s', r)" and "priv g = Some surf"
  obtains (pump_failed) surf1 r1 where "PumpSurfEvents e h surf = Some (h', surf1, r1)"
      "r1 \<noteq> Ret True" "s' = Some (g\<lparr>priv := Some surf1\<rparr>)"
      "r = (case r1 of Fault f \<Rightarrow> Fault f | Ret ok \<Rightarrow> Ret NULL)"
    | (acquire) h1 surf1 surf2 where "PumpSurfEvents e h surf = Some (h1, surf1, Ret True)"
      "LockAcquire e h1 surf1 g = (h', surf2, r)" "s' = Some (g\<lparr>priv := Some surf2\<rparr>)"
proof -
  from assms obtain h1 surf1 r1 where p: "PumpSurfEvents e h surf = Some (h1, surf1, r1)"
    by (auto simp: eGbmSurfaceLockFrontBuffer_def split: option.splits)
  show ?thesis
  proof (cases "r1 = Ret True")
    case True
    obtain h2 surf2 r2 where l: "LockAcquire e h1 surf1 g = (h2, surf2, r2)"
      by (cases "LockAcquire e h1 surf1 g") auto
    with assms p True have "h' = h2" "r = r2" "s' = Some (g\<lparr>priv := Some surf2\<rparr>)"
      by (auto simp: eGbmSurfaceLockFrontBuffer_def SetSurf_def)
    with acquire p True l show ?thesis by simp
  next
    case False
    with assms p have "h' = h1" "s' = Some (g\<lparr>priv := Some surf1\<rparr>)"
      "r = (case r1 of Fault f \<Rightarrow> Fault f | Ret ok \<Rightarrow> Ret NULL)"
      by (auto simp: eGbmSurfaceLockFrontBuffer_def SetSurf_def split: outcome.splits if_splits)
    with pump_failed p False show ?thesis by simp
  qed
qed

lemma LockFrontBuffer_prefix:
  assumes "eGbmSurfaceLockFrontBuffer e h s = Some (h', s', r)"
  shows "\<exists>new. h' = h @ new"
proof (cases "GetSurf s")
  case None
  with assms show ?thesis
    by (auto simp: eGbmSurfaceLockFrontBuffer_def GetSurf_def split: option.splits)
next
  case (Some surf)
  then obtain g where g: "s = Some g" "priv g = Some surf"
    by (auto simp: GetSurf_def split: option.splits)
  from assms g have l: "eGbmSurfaceLockFrontBuffer e h (Some g) = Some (h', s', r)" by simp
  from l g(2) show ?thesis
  proof (cases rule: LockFrontBuffer_cases)
    case (pump_failed surf1 r1)
    from PumpSurfEvents_post [OF pump_failed(1)] show ?thesis by blast
  next
    case (acquire h1 surf1 surf2)
    from PumpSurfEvents_post [OF acquire(1)] obtain n1 where "h1 = h @ n1" by blast
    moreover from LockAcquire_prefix [OF acquire(2)] obtain n2 where "h' = h1 @ n2" by blast
    ultimately show ?thesis by simp
  qed
qed

lemma ReleaseBuffer_prefix:
  assumes "eGbmSurfaceReleaseBuffer e h s c = (h', s', r)"
  shows "\<exists>new. h' = h @ new \<and> list_all (\<lambda>c. \<not> pump_call c \<or> \<not> is_query c) new"
  using assms
  by (auto simp: eGbmSurfaceReleaseBuffer_def Let_def is_query_def split: option.splits if_splits)

lemma run_op_prefix:
  assumes "run_op e h s op = Some (h', s', alive)"
  shows "\<exists>new. h' = h @ new"
proof (cases op)
  case HasFreeBuffers
  with assms obtain r where "eGbmSurfaceHasFreeBuffers e h s = Some (h', s', r)"
    by (auto simp: run_op_def split: option.splits)
  then show ?thesis by (rule HasFreeBuffers_prefix)
next
  case LockFrontBuffer
  with assms obtain r where "eGbmSurfaceLockFrontBuffer e h s = Some (h', s', r)"
    by (auto simp: run_op_def split: option.splits)
  then show ?thesis by (rule LockFrontBuffer_prefix)
next
  case (ReleaseBuffer c)
  with assms obtain r where "eGbmSurfaceReleaseBuffer e h s c = (h', s', r)"
    by (auto simp: run_op_def split: prod.splits)
  from ReleaseBuffer_prefix [OF this] show ?thesis by blast
qed

lemma run_ops_prefix:
  assumes "run_ops e h s ops = Some (h', s')"
  shows "\<exists>new. h' = h @ new"
  using assms
proof (induction ops arbitrary: h s)
  case Nil
  then show ?case by simp
next
  case (Cons op ops)
  from Cons.prems obtain h1 s1 alive where op: "run_op e h s op = Some (h1, s1, alive)"
    and rest: "if alive then run_ops e h1 s1 ops = Some (h', s') else (h1, s1) = (h', s')"
    by (auto split: option.splits if_splits)
  from run_op_prefix [OF op] obtain n1 where n1: "h1 = h @ n1" by blast
  show ?case
  proof (cases alive)
    case True
    with rest Cons.IH obtain n2 where "h' = h1 @ n2" by auto
    with n1 show ?thesis by simp
  next
    case False
    with rest n1 have "h' = h @ n1" by simp
    then show ?thesis by blast
  qed
qed

lemma ReleaseBuffer_stale:
  assumes "eGbmSurfaceReleaseBuffer e h s c = (h', s', r)"
    and "GetSurf s = Some surf" and "stale_slot i b surf"
  shows "\<exists>surf'. GetSurf s' = Some surf' \<and> stale_slot i b surf'"
proof -
  obtain g where g: "s = Some g" "priv g = Some surf"
    using assms(2) by (auto simp: GetSurf_def split: option.splits)
  let ?k = "slot_scan (\<lambda>sl. bo sl = c) (images surf) 0"
  have il: "i < length (images surf)" using assms(3) by (simp add: stale_slot_def)
  have same: "stale_slot i b (surf\<lparr>images := (images surf)[?k := (images surf ! ?k)\<lparr>locked := False\<rparr>]\<rparr>)"
    using assms(3) il by (cases "?k = i") (auto simp: stale_slot_def)
  have "s' = s \<or> s' = Some (g\<lparr>priv := Some surf\<rparr>)
        \<or> s' = Some (g\<lparr>priv := Some (surf\<lparr>images := (images surf)[?k := (images surf ! ?k)\<lparr>locked := False\<rparr>]\<rparr>)\<rparr>)"
    using assms(1) g
    by (auto simp: eGbmSurfaceReleaseBuffer_def GetSurf_def SetSurf_def Let_def split: if_splits)
  with same assms(3) g show "\<exists>surf'. GetSurf s' = Some surf' \<and> stale_slot i b surf'"
    by (auto simp: GetSurf_def)
qed

lemma HasFreeBuffers_stale:
  assumes "eGbmSurfaceHasFreeBuffers e h s = Some (h', s', r)"
    and "GetSurf s = Some surf" and "stale_slot i b surf" and "b \<noteq> NULL"
    and "\<forall>c\<in>set (drop (length h) h'). \<not> removes EGL_NO_IMAGE_KHR c"
  shows "\<exists>surf'. GetSurf s' = Some surf' \<and> stale_slot i b surf'"
proof -
  obtain g where g: "s = Some g" "priv g = Some surf"
    using assms(2) by (auto simp: GetSurf_def split: option.splits)
  show ?thesis
  proof (cases "freeImages surf")
    case True
    with assms show ?thesis by (auto simp: eGbmSurfaceHasFreeBuffers_def)
  next
    case False
    with assms(1,2) obtain surf1 r1 where p: "PumpSurfEvents e h surf = Some (h', surf1, r1)"
      and s': "s' = SetSurf s (Some surf1)"
      by (auto simp: eGbmSurfaceHasFreeBuffers_def split: option.splits outcome.splits if_splits)
    from PumpSurfEvents_stale [OF p assms(3,4,5)] s' g show ?thesis
      by (simp add: SetSurf_def GetSurf_def)
  qed
qed

lemma LockFrontBuffer_stale:
  assumes "eGbmSurfaceLockFrontBuffer e h s = Some (h', s', r)"
    and "GetSurf s = Some surf" and "stale_slot i b surf" and "b \<noteq> NULL"
    and "\<forall>c\<in>set (drop (length h) h'). \<not> removes EGL_NO_IMAGE_KHR c"
  shows "\<exists>surf'. GetSurf s' = Some surf' \<and> stale_slot i b surf'"
proof -
  obtain g where g: "s = Some g" "priv g = Some surf"
    using assms(2) by (auto simp: GetSurf_def split: option.splits)
  from assms(1) g have l: "eGbmSurfaceLockFrontBuffer e h (Some g) = Some (h', s', r)" by simp
  from l g(2) show ?thesis
  proof (cases rule: LockFrontBuffer_cases)
    case (pump_failed surf1 r1)
    from PumpSurfEvents_stale [OF pump_failed(1) assms(3,4,5)] pump_failed(3) show ?thesis
      by (simp add: GetSurf_def)
  next
    case (acquire h1 surf1 surf2)
    from PumpSurfEvents_post [OF acquire(1)] obtain n1 where n1: "h1 = h @ n1" by blast
    from LockAcquire_prefix [OF acquire(2)] obtain n2 where n2: "h' = h1 @ n2" by blast
    from assms(5) n1 n2 have "\<forall>c\<in>set (drop (length h) h1). \<not> removes EGL_NO_IMAGE_KHR c" by auto
    from PumpSurfEvents_stale [OF acquire(1) assms(3,4) this] have "stale_slot i b surf1" .
    from LockAcquire_stale [OF acquire(2) this assms(4)] acquire(3) show ?thesis
      by (simp add: GetSurf_def)
  qed
qed

lemma run_op_stale:
  assumes "run_op e h s op = Some (h', s', alive)"
    and "GetSurf s = Some surf" and "stale_slot i b surf" and "b \<noteq> NULL"
    and "\<forall>c\<in>set (drop (length h) h'). \<not> removes EGL_NO_IMAGE_KHR c"
  shows "\<exists>surf'. GetSurf s' = Some surf' \<and> stale_slot i b surf'"
proof (cases op)
  case HasFreeBuffers
  with assms(1) obtain r where "eGbmSurfaceHasFreeBuffers e h s = Some (h', s', r)"
    by (auto simp: run_op_def split: option.splits)
  from HasFreeBuffers_stale [OF this assms(2-5)] show ?thesis .
next
  case LockFrontBuffer
  with assms(1) obtain r where "eGbmSurfaceLockFrontBuffer e h s = Some (h', s', r)"
    by (auto simp: run_op_def split: option.splits)
  from LockFrontBuffer_stale [OF this assms(2-5)] show ?thesis .
next
  case (ReleaseBuffer c)
  with assms(1) obtain r where "eGbmSurfaceReleaseBuffer e h s c = (h', s', r)"
    by (auto simp: run_op_def split: prod.splits)
  from ReleaseBuffer_stale [OF this assms(2,3)] show ?thesis .
qed

lemma run_ops_stale:
  assumes "run_ops e h s ops = Some (h', s')"
    and "GetSurf s = Some surf" and "stale_slot i b surf" and "b \<noteq> NULL"
    and "\<forall>c\<in>set (drop (length h) h'). \<not> removes EGL_NO_IMAGE_KHR c"
  shows "\<exists>surf'. GetSurf s' = Some surf' \<and> stale_slot i b surf'"
  using assms
proof (induction ops arbitrary: h s surf)
  case Nil
  then show ?case by simp
next
  case (Cons op ops)
  from Cons.prems(1) obtain h1 s1 alive where op: "run_op e h s op = Some (h1, s1, alive)"
    and rest: "if alive then run_ops e h1 s1 ops = Some (h', s') else (h1, s1) = (h', s')"
    by (auto split: option.splits if_splits)
  from run_op_prefix [OF op] obtain n1 where n1: "h1 = h @ n1" by blast
  show ?case
  proof (cases alive)
    case False
    with rest have eq: "h1 = h'" "s1 = s'" by simp_all
    from run_op_stale [OF op Cons.prems(2,3,4)] Cons.prems(5) eq show ?thesis by simp
  next
    case True
    with rest have r: "run_ops e h1 s1 ops = Some (h', s')" by simp
    from run_ops_prefix [OF r] obtain n2 where n2: "h' = h1 @ n2" by blast
    from Cons.prems(5) n1 n2 have g1: "\<forall>c\<in>set (drop (length h) h1). \<not> removes EGL_NO_IMAGE_KHR c"
      and g2: "\<forall>c\<in>set (drop (length h1) h'). \<not> removes EGL_NO_IMAGE_KHR c" by auto
    from run_op_stale [OF op Cons.prems(2,3,4) g1] obtain surf1
      where s1: "GetSurf s1 = Some surf1" "stale_slot i b surf1" by blast
    from Cons.IH [OF r s1 Cons.prems(4) g2] show ?thesis .
  qed
qed


lemma FreeSurface_destroys_bo:
  assumes "i < MAX_STREAM_IMAGES" and "bo (images surf ! i) = b" and "b \<noteq> NULL"
  shows "BoDestroy b \<in> set (drop (length h) (FreeSurface h (Some surf)))"
proof -
  have "i \<in> set [0..<MAX_STREAM_IMAGES]" using assms(1) by simp
  then show ?thesis
    using assms(2,3) by (auto simp: FreeSurface_def intro!: bexI [of _ i])
qed

text \<open>
  C9, as amended. A ReleaseBuffer call that finds for its buffer object \<open>b\<close> a slot \<open>i\<close>
  whose frame image is gone destroys \<open>b\<close> and changes nothing in the surface but the
  locked flag of that slot: the slot's \<open>bo\<close> field still holds \<open>b\<close>. In a build with
  assertions the call then stops at \<open>assert(img != EGL_NO_IMAGE_KHR)\<close>. When the call
  returns, then after any further calls to the entry points of the window, as long as the
  pipeline sends no "image removed" event for the null image, slot \<open>i\<close> still has no
  frame image and still holds \<open>b\<close>; so the scan of \<open>AddSurfImage\<close> for a fully empty slot
  does not stop at \<open>i\<close>, and \<open>FreeSurface\<close> passes \<open>b\<close>, which the log already shows
  destroyed, to \<open>gbm_bo_destroy\<close> again.
\<close>

theorem ReleaseBuffer_keeps_destroyed_pointer:
  assumes "priv g = Some surf" and "length (images surf) = MAX_STREAM_IMAGES"
    and "b \<noteq> NULL"
    and "i = slot_scan (\<lambda>sl. bo sl = b) (images surf) 0" and "i < MAX_STREAM_IMAGES"
    and "image (images surf ! i) = EGL_NO_IMAGE_KHR"
    and "eGbmSurfaceReleaseBuffer e h (Some g) b = (h1, s1, r)"
    and "run_ops e h1 s1 ops = Some (h2, s2)"
    and "\<forall>c\<in>set (drop (length h1) h2). \<not> removes EGL_NO_IMAGE_KHR c"
  shows "h1 = h @ [BoDestroy b]
       \<and> s1 = Some (g\<lparr>priv := Some (surf\<lparr>images :=
                      (images surf)[i := (images surf ! i)\<lparr>locked := False\<rparr>]\<rparr>)\<rparr>)
       \<and> r = (if NDEBUG e then Ret () else Fault (AssertFailed Assert_img))
       \<and> (r = Ret () \<longrightarrow>
            BoDestroy b \<in> set h2
            \<and> (\<exists>surf2. GetSurf s2 = Some surf2
                 \<and> image (images surf2 ! i) = EGL_NO_IMAGE_KHR \<and> bo (images surf2 ! i) = b
                 \<and> slot_scan (\<lambda>sl. image sl = EGL_NO_IMAGE_KHR \<and> bo sl = NULL) (images surf2) 0 \<noteq> i
                 \<and> BoDestroy b \<in> set (drop (length h2) (FreeSurface h2 (Some surf2)))))"
proof -
  let ?surf1 = "surf\<lparr>images := (images surf)[i := (images surf ! i)\<lparr>locked := False\<rparr>]\<rparr>"
  have bi: "bo (images surf ! i) = b"
    using slot_scan_found [of "\<lambda>sl. bo sl = b" "images surf" 0] assms(4,5) by simp
  have rel: "h1 = h @ [BoDestroy b]" "s1 = Some (g\<lparr>priv := Some ?surf1\<rparr>)"
    "r = (if NDEBUG e then Ret () else Fault (AssertFailed Assert_img))"
    using assms(1,3,4,5,6,7) bi
    by (simp_all add: eGbmSurfaceReleaseBuffer_def GetSurf_def SetSurf_def Let_def)
  have g1: "GetSurf s1 = Some ?surf1" using rel(2) by (simp add: GetSurf_def)
  have st1: "stale_slot i b ?surf1"
    using assms(2,5,6) bi by (simp add: stale_slot_def)
  from run_ops_stale [OF assms(8) g1 st1 assms(3,9)] obtain surf2
    where s2: "GetSurf s2 = Some surf2" and st2: "stale_slot i b surf2" by blast
  from run_ops_prefix [OF assms(8)] rel(1) have in2: "BoDestroy b \<in> set h2" by auto
  have ne: "slot_scan (\<lambda>sl. image sl = EGL_NO_IMAGE_KHR \<and> bo sl = NULL) (images surf2) 0 \<noteq> i"
  proof
    assume eq: "slot_scan (\<lambda>sl. image sl = EGL_NO_IMAGE_KHR \<and> bo sl = NULL) (images surf2) 0 = i"
    with assms(5) slot_scan_found [of "\<lambda>sl. image sl = EGL_NO_IMAGE_KHR \<and> bo sl = NULL" "images surf2" 0]
    have "bo (images surf2 ! i) = NULL" by simp
    with st2 assms(3) show False by (simp add: stale_slot_def)
  qed
  have fs: "BoDestroy b \<in> set (drop (length h2) (FreeSurface h2 (Some surf2)))"
    using st2 assms(3,5) by (intro FreeSurface_destroys_bo [of i]) (simp_all add: stale_slot_def)
  from rel in2 s2 st2 ne fs show ?thesis by (auto simp: stale_slot_def)
qed


lemma stale_pump_run:
  "PumpSurfEvents (scripted script_add_available) [BoDestroy 41] surface_stale
   = Some ([BoDestroy 41, QueryEvent 0 EGL_TRUE EGL_STREAM_IMAGE_ADD_NV 0, CreateImage 0 11,
            QueryEvent 0 EGL_TRUE EGL_STREAM_IMAGE_AVAILABLE_NV 0],
           surface_stale_added, Ret True)"
proof -
  let ?e = "scripted script_add_available"
  let ?h0 = "[BoDestroy 41]"
  let ?s0 = "surface_stale\<lparr>freeImages := False\<rparr>"
  let ?s1 = "?s0\<lparr>images := (images ?s0)[1 := (images ?s0 ! 1)\<lparr>image := 11\<rparr>]\<rparr>"
  let ?h1 = "[BoDestroy 41, QueryEvent 0 EGL_TRUE EGL_STREAM_IMAGE_ADD_NV 0]"
  let ?h2 = "[BoDestroy 41, QueryEvent 0 EGL_TRUE EGL_STREAM_IMAGE_ADD_NV 0, CreateImage 0 11]"
  have s0: "stream ?s0 = 0" "\<not> freeImages ?s0" "stream ?s1 = 0"
    by (simp_all add: surface_stale_def scripted_simps)
  have q: "QueryStreamConsumerEventNV ?e ?h0 (stream ?s0) = (EGL_TRUE, EGL_STREAM_IMAGE_ADD_NV, 0)"
    by (simp add: scripted_simps script_add_available_def)
  have add: "AddSurfImage ?e ?h1 ?s0 = (?h2, ?s1, True)"
    by (simp add: AddSurfImage_def slot_scan.simps scripted_simps surface_stale_def
          script_add_available_def Let_def)
  have 1: "PumpLoop ?e ?h0 ?s0 = PumpLoop ?e ?h2 ?s1"
    using PumpLoop_add [OF q, of _ _ True] add s0 by simp
  have q2: "QueryStreamConsumerEventNV ?e ?h2 (stream ?s1) = (EGL_TRUE, EGL_STREAM_IMAGE_AVAILABLE_NV, 0)"
    by (simp add: scripted_simps script_add_available_def)
  have 2: "PumpLoop ?e ?h2 ?s1 =
             Some (?h2 @ [QueryEvent 0 EGL_TRUE EGL_STREAM_IMAGE_AVAILABLE_NV 0],
                   ?s1\<lparr>freeImages := True\<rparr>, Ret True)"
    using PumpLoop_available [OF q2] s0 by simp
  show ?thesis
    unfolding PumpSurfEvents_def 1 2
    by (simp add: surface_stale_def surface_stale_added_def scripted_simps)
qed

theorem ReleaseBuffer_keeps_destroyed_pointer_witness:
  "eGbmSurfaceReleaseBuffer (scripted script_add_available) [] (Some (window (Some surface_revoked))) 41
     = ([BoDestroy 41], Some (window (Some surface_stale)), Ret ())
   \<and> run_ops (scripted script_add_available) [BoDestroy 41] (Some (window (Some surface_stale)))
        [HasFreeBuffers]
     = Some ([BoDestroy 41, QueryEvent 0 EGL_TRUE EGL_STREAM_IMAGE_ADD_NV 0, CreateImage 0 11,
              QueryEvent 0 EGL_TRUE EGL_STREAM_IMAGE_AVAILABLE_NV 0],
             Some (window (Some surface_stale_added)))
   \<and> bo (images surface_stale_added ! 0) = 41
   \<and> slot_scan (\<lambda>sl. image sl = EGL_NO_IMAGE_KHR \<and> bo sl = NULL) (images surface_stale_added) 0 \<noteq> 0
   \<and> BoDestroy 41 \<in> set (drop 4
        (FreeSurface [BoDestroy 41, QueryEvent 0 EGL_TRUE EGL_STREAM_IMAGE_ADD_NV 0, CreateImage 0 11,
              QueryEvent 0 EGL_TRUE EGL_STREAM_IMAGE_AVAILABLE_NV 0] (Some surface_stale_added)))"
proof -
  let ?e = "scripted script_add_available"
  let ?h2 = "[BoDestroy 41, QueryEvent 0 EGL_TRUE EGL_STREAM_IMAGE_ADD_NV 0, CreateImage 0 11,
              QueryEvent 0 EGL_TRUE EGL_STREAM_IMAGE_AVAILABLE_NV 0]"
  have 1: "priv (window (Some surface_revoked)) = Some surface_revoked" by (simp add: window_def)
  have 2: "length (images surface_revoked) = MAX_STREAM_IMAGES"
    by (simp add: surface_revoked_def scripted_simps)
  have 3: "(41::nat) \<noteq> NULL" by simp
  have 4: "0 = slot_scan (\<lambda>sl. bo sl = 41) (images surface_revoked) 0"
    by (simp add: slot_scan.simps surface_revoked_def scripted_simps)
  have 5: "(0::nat) < MAX_STREAM_IMAGES" by simp
  have 6: "image (images surface_revoked ! 0) = EGL_NO_IMAGE_KHR"
    by (simp add: surface_revoked_def scripted_simps)
  have 7: "eGbmSurfaceReleaseBuffer ?e [] (Some (window (Some surface_revoked))) 41
     = ([BoDestroy 41], Some (window (Some surface_stale)), Ret ())"
    by (simp add: eGbmSurfaceReleaseBuffer_def GetSurf_def SetSurf_def Let_def window_def
          slot_scan.simps surface_revoked_def surface_stale_def scripted_simps script_add_available_def)
  have nf: "GetSurf (Some (window (Some surface_stale))) = Some surface_stale"
    "\<not> freeImages surface_stale"
    by (simp_all add: GetSurf_def window_def surface_stale_def scripted_simps)
  have hf: "eGbmSurfaceHasFreeBuffers ?e [BoDestroy 41] (Some (window (Some surface_stale)))
     = Some (?h2, Some (window (Some surface_stale_added)), Ret 1)"
    using nf stale_pump_run
    by (simp add: eGbmSurfaceHasFreeBuffers_def SetSurf_def window_def surface_stale_added_def)
  have 8: "run_ops ?e [BoDestroy 41] (Some (window (Some surface_stale))) [HasFreeBuffers]
     = Some (?h2, Some (window (Some surface_stale_added)))"
    by (simp add: run_op_def hf returned_def)
  have 9: "\<forall>c\<in>set (drop (length [BoDestroy 41]) ?h2). \<not> removes EGL_NO_IMAGE_KHR c"
    by (simp add: removes_def)
  have gs: "GetSurf (Some (window (Some surface_stale_added))) = Some surface_stale_added"
    by (simp add: GetSurf_def window_def)
  from ReleaseBuffer_keeps_destroyed_pointer [OF 1 2 3 4 5 6 7 8 9] obtain surf2
    where a: "GetSurf (Some (window (Some surface_stale_added))) = Some surf2"
      "bo (images surf2 ! 0) = 41"
      "slot_scan (\<lambda>sl. image sl = EGL_NO_IMAGE_KHR \<and> bo sl = NULL) (images surf2) 0 \<noteq> 0"
      "BoDestroy 41 \<in> set (drop (length ?h2) (FreeSurface ?h2 (Some surf2)))"
    by blast
  from a(1) gs have eq: "surf2 = surface_stale_added" by simp
  have len: "length ?h2 = 4" by simp
  from a(2) eq have b: "bo (images surface_stale_added ! 0) = 41" by simp
  from a(3) eq have c: "slot_scan (\<lambda>sl. image sl = EGL_NO_IMAGE_KHR \<and> bo sl = NULL)
      (images surface_stale_added) 0 \<noteq> 0" by simp
  have d: "BoDestroy 41 \<in> set (drop 4 (FreeSurface ?h2 (Some surface_stale_added)))"
    using a(4) unfolding eq len .
  show ?thesis
    by (intro conjI) (rule 7, rule 8, rule b, rule c, rule d)
qed

text \<open>
  Without the condition on the pipeline the slot does not keep the pointer: an "image
  removed" event for the null image matches the slot that has lost its frame image,
  \<open>RemoveSurfImage\<close> destroys \<open>b\<close> once more and clears the field, the scan of
  \<open>AddSurfImage\<close> then stops at that slot, and \<open>FreeSurface\<close> no longer passes \<open>b\<close> on.
\<close>

lemma remove_null_pump_run:
  "PumpSurfEvents (scripted script_remove_null) [BoDestroy 41] surface_stale
   = Some (log_remove_null, (new_surface 1)\<lparr>freeImages := True\<rparr>, Ret True)"
proof -
  let ?e = "scripted script_remove_null"
  let ?h0 = "[BoDestroy 41]"
  let ?s0 = "surface_stale\<lparr>freeImages := False\<rparr>"
  let ?q = "QueryEvent 0 EGL_TRUE EGL_STREAM_IMAGE_REMOVE_NV EGL_NO_IMAGE_KHR"
  let ?h2 = "[BoDestroy 41, ?q, DestroyImage EGL_NO_IMAGE_KHR, BoDestroy 41]"
  let ?s1 = "new_surface 1"
  have s0: "stream ?s0 = 0" "\<not> freeImages ?s0" "stream ?s1 = 0"
    by (simp_all add: surface_stale_def scripted_simps)
  have q: "QueryStreamConsumerEventNV ?e ?h0 (stream ?s0)
             = (EGL_TRUE, EGL_STREAM_IMAGE_REMOVE_NV, EGL_NO_IMAGE_KHR)"
    by (simp add: scripted_simps script_remove_null_def)
  have rm: "RemoveSurfImage [BoDestroy 41, ?q] ?s0 EGL_NO_IMAGE_KHR = (?h2, ?s1)"
    by (simp add: RemoveSurfImage_def slot_scan.simps scripted_simps surface_stale_def Let_def)
  have 1: "PumpLoop ?e ?h0 ?s0 = PumpLoop ?e ?h2 ?s1"
    using PumpLoop_remove [OF q] rm s0 by simp
  have q2: "QueryStreamConsumerEventNV ?e ?h2 (stream ?s1) = (EGL_TRUE, EGL_STREAM_IMAGE_AVAILABLE_NV, 0)"
    by (simp add: scripted_simps script_remove_null_def)
  have 2: "PumpLoop ?e ?h2 ?s1 =
             Some (?h2 @ [QueryEvent 0 EGL_TRUE EGL_STREAM_IMAGE_AVAILABLE_NV 0],
                   ?s1\<lparr>freeImages := True\<rparr>, Ret True)"
    using PumpLoop_available [OF q2] s0 by simp
  show ?thesis
    unfolding PumpSurfEvents_def 1 2 by (simp add: log_remove_null_def)
qed

theorem stale_slot_cleared_counterexample:
  "eGbmSurfaceReleaseBuffer (scripted script_remove_null) [] (Some (window (Some surface_revoked))) 41
     = ([BoDestroy 41], Some (window (Some surface_stale)), Ret ())
   \<and> run_ops (scripted script_remove_null) [BoDestroy 41] (Some (window (Some surface_stale)))
        [HasFreeBuffers]
     = Some (log_remove_null, Some (window (Some ((new_surface 1)\<lparr>freeImages := True\<rparr>))))
   \<and> slot_scan (\<lambda>sl. image sl = EGL_NO_IMAGE_KHR \<and> bo sl = NULL)
        (images ((new_surface 1)\<lparr>freeImages := True\<rparr>)) 0 = 0
   \<and> BoDestroy 41 \<notin> set (drop (length log_remove_null)
        (FreeSurface log_remove_null (Some ((new_surface 1)\<lparr>freeImages := True\<rparr>))))"
proof -
  let ?e = "scripted script_remove_null"
  have 1: "eGbmSurfaceReleaseBuffer ?e [] (Some (window (Some surface_revoked))) 41
     = ([BoDestroy 41], Some (window (Some surface_stale)), Ret ())"
    by (simp add: eGbmSurfaceReleaseBuffer_def GetSurf_def SetSurf_def Let_def window_def
          slot_scan.simps surface_revoked_def surface_stale_def scripted_simps script_remove_null_def)
  have nf: "GetSurf (Some (window (Some surface_stale))) = Some surface_stale"
    "\<not> freeImages surface_stale"
    by (simp_all add: GetSurf_def window_def surface_stale_def scripted_simps)
  have hf: "eGbmSurfaceHasFreeBuffers ?e [BoDestroy 41] (Some (window (Some surface_stale)))
     = Some (log_remove_null, Some (window (Some ((new_surface 1)\<lparr>freeImages := True\<rparr>))), Ret 1)"
    using nf remove_null_pump_run
    by (simp add: eGbmSurfaceHasFreeBuffers_def SetSurf_def window_def)
  have 2: "run_ops ?e [BoDestroy 41] (Some (window (Some surface_stale))) [HasFreeBuffers]
     = Some (log_remove_null, Some (window (Some ((new_surface 1)\<lparr>freeImages := True\<rparr>))))"
    by (simp add: run_op_def hf returned_def)
  have 3: "slot_scan (\<lambda>sl. image sl = EGL_NO_IMAGE_KHR \<and> bo sl = NULL)
        (images ((new_surface 1)\<lparr>freeImages := True\<rparr>)) 0 = 0"
    by (simp add: slot_scan.simps scripted_simps)
  have 4: "BoDestroy 41 \<notin> set (drop (length log_remove_null)
        (FreeSurface log_remove_null (Some ((new_surface 1)\<lparr>freeImages := True\<rparr>))))"
    by (simp add: FreeSurface_def scripted_simps upt_rec)
  show ?thesis
    by (intro conjI) (rule 1, rule 2, rule 3, rule 4)
qed

section \<open>The cache of buffer objects\<close>

lemma cached_slot_image: "cached_slot img i b surf \<Longrightarrow> image (images surf ! i) = img"
  using slot_scan_found [of "\<lambda>sl. image sl = img" "images surf" 0]
  by (auto simp: cached_slot_def)

lemma AddSurfImage_cached:
  assumes a: "AddSurfImage e h surf = (h1, surf1, ok)"
    and inv: "cached_slot img i b surf" and img: "img \<noteq> EGL_NO_IMAGE_KHR"
    and good: "\<forall>c\<in>set (drop (length h) h1). \<not> creates img c"
  shows "cached_slot img i b surf1"
proof -
  let ?k = "slot_scan (\<lambda>sl. image sl = EGL_NO_IMAGE_KHR \<and> bo sl = NULL) (images surf) 0"
  show ?thesis
  proof (cases "?k < MAX_STREAM_IMAGES")
    case False
    with a have "surf1 = surf" by (auto simp: AddSurfImage_def Let_def)
    with inv show ?thesis by simp
  next
    case True
    let ?c = "CreateImageKHR e h (stream surf)"
    from a True have h1: "h1 = h @ [CreateImage (stream surf) ?c]"
      and s1: "images surf1 = (images surf)[?k := (images surf ! ?k)\<lparr>image := ?c\<rparr>]"
      by (auto simp: AddSurfImage_def Let_def)
    from good h1 have c: "?c \<noteq> img" by (simp add: creates_def)
    from slot_scan_found [OF True] have k0: "image (images surf ! ?k) = EGL_NO_IMAGE_KHR" by simp
    have len: "length (images surf) = MAX_STREAM_IMAGES" using inv by (simp add: cached_slot_def)
    have pt: "\<forall>j<MAX_STREAM_IMAGES. (image (images surf1 ! j) = img) = (image (images surf ! j) = img)"
    proof (intro allI impI)
      fix j assume "j < MAX_STREAM_IMAGES"
      show "(image (images surf1 ! j) = img) = (image (images surf ! j) = img)"
      proof (cases "j = ?k")
        case True
        with s1 len \<open>j < MAX_STREAM_IMAGES\<close> c k0 img show ?thesis by auto
      next
        case False
        with s1 show ?thesis by simp
      qed
    qed
    from slot_scan_cong [OF pt]
    have sc: "slot_scan (\<lambda>sl. image sl = img) (images surf1) 0 = slot_scan (\<lambda>sl. image sl = img) (images surf) 0" .
    have "bo (images surf1 ! i) = bo (images surf ! i)"
      using s1 len inv by (cases "i = ?k") (auto simp: cached_slot_def)
    with sc s1 inv show ?thesis by (simp add: cached_slot_def)
  qed
qed

lemma RemoveSurfImage_cached:
  assumes r: "RemoveSurfImage h surf aux = (h1, surf1)"
    and inv: "cached_slot img i b surf" and img: "img \<noteq> EGL_NO_IMAGE_KHR"
    and aux: "aux \<noteq> img"
  shows "cached_slot img i b surf1"
proof -
  let ?k = "slot_scan (\<lambda>sl. image sl = aux) (images surf) 0"
  show ?thesis
  proof (cases "?k < MAX_STREAM_IMAGES")
    case False
    with r have "surf1 = surf" by (auto simp: RemoveSurfImage_def Let_def)
    with inv show ?thesis by simp
  next
    case True
    from slot_scan_found [OF True] have ka: "image (images surf ! ?k) = aux" by simp
    have len: "length (images surf) = MAX_STREAM_IMAGES" using inv by (simp add: cached_slot_def)
    from cached_slot_image [OF inv] ka aux have ki: "?k \<noteq> i" by auto
    from r True obtain v where s1: "images surf1 = (images surf)[?k := v]"
      and v: "image v = EGL_NO_IMAGE_KHR"
      by (auto simp: RemoveSurfImage_def Let_def split: if_splits)
    have pt: "\<forall>j<MAX_STREAM_IMAGES. (image (images surf1 ! j) = img) = (image (images surf ! j) = img)"
    proof (intro allI impI)
      fix j assume "j < MAX_STREAM_IMAGES"
      show "(image (images surf1 ! j) = img) = (image (images surf ! j) = img)"
      proof (cases "j = ?k")
        case True
        with s1 len \<open>j < MAX_STREAM_IMAGES\<close> v ka aux img show ?thesis by auto
      next
        case False
        with s1 show ?thesis by simp
      qed
    qed
    from slot_scan_cong [OF pt]
    have sc: "slot_scan (\<lambda>sl. image sl = img) (images surf1) 0 = slot_scan (\<lambda>sl. image sl = img) (images surf) 0" .
    have "bo (images surf1 ! i) = bo (images surf ! i)"
      using s1 ki by simp
    with sc s1 inv show ?thesis by (simp add: cached_slot_def)
  qed
qed

lemma PumpStep_cached:
  assumes st: "PumpStep e h surf = (h1, surf1, ctl)"
    and inv: "cached_slot img i b surf" and img: "img \<noteq> EGL_NO_IMAGE_KHR"
    and good: "\<forall>c\<in>set (drop (length h) h1). \<not> (removes img c \<or> creates img c)"
  shows "cached_slot img i b surf1"
proof -
  obtain evStatus event aux where q: "QueryStreamConsumerEventNV e h (stream surf) = (evStatus, event, aux)"
    by (cases "QueryStreamConsumerEventNV e h (stream surf)") auto
  let ?q = "QueryEvent (stream surf) evStatus event aux"
  show ?thesis
  proof (cases "evStatus = EGL_TRUE")
    case False
    with st q inv show ?thesis by (simp add: PumpStep_def)
  next
    case True
    show ?thesis
    proof (cases event)
      case EGL_STREAM_IMAGE_AVAILABLE_NV
      with st q True inv show ?thesis by (auto simp: PumpStep_def cached_slot_def)
    next
      case EGL_STREAM_IMAGE_ADD_NV
      obtain h2 surf2 ok where a: "AddSurfImage e (h @ [?q]) surf = (h2, surf2, ok)"
        by (cases "AddSurfImage e (h @ [?q]) surf") auto
      with st q True EGL_STREAM_IMAGE_ADD_NV have eq: "surf1 = surf2" "h1 = h2"
        by (auto simp: PumpStep_def Let_def split: if_splits)
      from AddSurfImage_calls [OF a] obtain n where n: "h2 = (h @ [?q]) @ n" by blast
      with good eq have "\<forall>c\<in>set (drop (length (h @ [?q])) h2). \<not> creates img c" by auto
      from AddSurfImage_cached [OF a inv img this] eq show ?thesis by simp
    next
      case EGL_STREAM_IMAGE_REMOVE_NV
      obtain h3 surf3 where r: "RemoveSurfImage (h @ [?q]) surf aux = (h3, surf3)"
        by (cases "RemoveSurfImage (h @ [?q]) surf aux") auto
      with st q True EGL_STREAM_IMAGE_REMOVE_NV have eq: "surf1 = surf3" "h1 = h3"
        by (auto simp: PumpStep_def Let_def)
      from RemoveSurfImage_calls [OF r] obtain n where n: "h3 = (h @ [?q]) @ n" by blast
      with good eq have "\<not> removes img ?q" by auto
      with True EGL_STREAM_IMAGE_REMOVE_NV have "aux \<noteq> img" by (simp add: removes_def)
      from RemoveSurfImage_cached [OF r inv img this] eq show ?thesis by simp
    next
      case (OtherEvent n)
      with st q True inv show ?thesis by (auto simp: PumpStep_def Let_def split: if_splits)
    qed
  qed
qed

lemma PumpSurfEvents_cached:
  assumes "PumpSurfEvents e h surf = Some (h', surf', r)"
    and "cached_slot img i b surf" and "img \<noteq> EGL_NO_IMAGE_KHR"
    and "\<forall>c\<in>set (drop (length h) h'). \<not> (removes img c \<or> creates img c)"
  shows "cached_slot img i b surf'"
proof -
  have run: "PumpLoop e h (surf\<lparr>freeImages := False\<rparr>) = Some (h', surf', r)"
    using assms(1) by (simp add: PumpSurfEvents_def)
  have init: "cached_slot img i b (surf\<lparr>freeImages := False\<rparr>)"
    using assms(2) by (simp add: cached_slot_def)
  show ?thesis
    by (rule PumpLoop_invariant [where I = "cached_slot img i b"
          and bad = "\<lambda>c. removes img c \<or> creates img c", OF run _ init assms(4)])
       (rule PumpStep_cached [OF _ _ assms(3)])
qed


lemma pump_call_kinds:
  "pump_call c \<Longrightarrow> \<not> acquires x c \<and> \<not> exports c \<and> \<not> is_acquire c"
  by (cases c) (simp_all add: pump_call_def acquires_def exports_def is_acquire_def)

lemma LockAcquire_calls:
  assumes "LockAcquire e h surf g = (h', surf', r)"
    and "StreamAcquireImageNV e h (stream surf) = (res, img)"
  shows "\<exists>rest. h' = h @ AcquireImage (stream surf) EGL_NO_SYNC_KHR res img # rest
           \<and> list_all (\<lambda>c. \<not> is_acquire c) rest"
proof -
  let ?h1 = "h @ [AcquireImage (stream surf) EGL_NO_SYNC_KHR res img]"
  obtain h2 m where m: "Materialize e ?h1 g img = (h2, m)"
    by (cases "Materialize e ?h1 g img") auto
  have "\<exists>n. h2 = ?h1 @ n \<and> list_all (\<lambda>c. \<not> is_acquire c) n"
    using m by (auto simp: Materialize_def Let_def is_acquire_def split: prod.splits if_splits)
  then obtain n where n: "h2 = ?h1 @ n" "list_all (\<lambda>c. \<not> is_acquire c) n" by blast
  have "h' = ?h1 \<or> h' = ?h1 @ [SetError EGL_BAD_SURFACE] \<or> h' = h2
        \<or> h' = h2 @ [SetError EGL_BAD_ALLOC, ReleaseImage (stream surf) img EGL_NO_SYNC_KHR]"
    using assms m
    by (auto simp: LockAcquire_def Let_def split: if_splits outcome.splits)
  then show ?thesis
    using n by (elim disjE) (auto simp: is_acquire_def)
qed

lemma LockAcquire_cache_hit:
  assumes "cached_slot img i b surf" and "b \<noteq> NULL"
    and "StreamAcquireImageNV e h (stream surf) = (True, img)"
  shows "LockAcquire e h surf g =
           (h @ [AcquireImage (stream surf) EGL_NO_SYNC_KHR True img],
            surf\<lparr>freeImages := False,
                 images := (images surf)[i := (images surf ! i)\<lparr>locked := True\<rparr>]\<rparr>,
            Ret b)"
  using assms by (auto simp: LockAcquire_def Let_def cached_slot_def)

lemma LockAcquire_fills_cache:
  assumes l: "LockAcquire e h surf g = (h', surf', Ret b)" and b: "b \<noteq> NULL"
    and len: "length (images surf) = MAX_STREAM_IMAGES"
    and a: "StreamAcquireImageNV e h (stream surf) = (res, img)"
  shows "res \<and> cached_slot img (slot_scan (\<lambda>sl. image sl = img) (images surf) 0) b surf'
         \<and> stream surf' = stream surf"
proof -
  let ?i = "slot_scan (\<lambda>sl. image sl = img) (images surf) 0"
  obtain h2 m where m: "Materialize e (h @ [AcquireImage (stream surf) EGL_NO_SYNC_KHR res img]) g img = (h2, m)"
    by (cases "Materialize e (h @ [AcquireImage (stream surf) EGL_NO_SYNC_KHR res img]) g img") auto
  from l b a have res: res by (auto simp: LockAcquire_def Let_def split: if_splits)
  from l b a res have lt: "?i < MAX_STREAM_IMAGES"
    by (auto simp: LockAcquire_def Let_def split: if_splits)
  from l b a res lt m len obtain v where s': "images surf' = (images surf)[?i := v]"
    and v: "image v = image (images surf ! ?i)" "bo v = b" and st: "stream surf' = stream surf"
    by (auto simp: LockAcquire_def Let_def split: if_splits outcome.splits)
  have pt: "\<forall>j<MAX_STREAM_IMAGES. (image (images surf' ! j) = img) = (image (images surf ! j) = img)"
  proof (intro allI impI)
    fix j assume "j < MAX_STREAM_IMAGES"
    then show "(image (images surf' ! j) = img) = (image (images surf ! j) = img)"
      using s' v(1) len by (cases "j = ?i") auto
  qed
  from slot_scan_cong [OF pt] have "slot_scan (\<lambda>sl. image sl = img) (images surf') 0 = ?i" .
  with s' v lt len res st show ?thesis by (simp add: cached_slot_def)
qed

lemma ReleaseBuffer_cached:
  assumes "eGbmSurfaceReleaseBuffer e h (Some g) c = (h', s', r)"
    and "priv g = Some surf" and "cached_slot img i b surf"
  shows "\<exists>g' surf'. s' = Some g' \<and> priv g' = Some surf' \<and> cached_slot img i b surf'
           \<and> stream surf' = stream surf"
proof -
  let ?k = "slot_scan (\<lambda>sl. bo sl = c) (images surf) 0"
  let ?surf1 = "surf\<lparr>images := (images surf)[?k := (images surf ! ?k)\<lparr>locked := False\<rparr>]\<rparr>"
  have len: "length (images surf) = MAX_STREAM_IMAGES" using assms(3) by (simp add: cached_slot_def)
  have pt: "\<forall>j<MAX_STREAM_IMAGES. (image (images ?surf1 ! j) = img) = (image (images surf ! j) = img)"
  proof (intro allI impI)
    fix j assume "j < MAX_STREAM_IMAGES"
    then show "(image (images ?surf1 ! j) = img) = (image (images surf ! j) = img)"
      using len by (cases "j = ?k") auto
  qed
  from slot_scan_cong [OF pt]
  have "slot_scan (\<lambda>sl. image sl = img) (images ?surf1) 0 = slot_scan (\<lambda>sl. image sl = img) (images surf) 0" .
  moreover have "bo (images ?surf1 ! i) = bo (images surf ! i)"
    using len assms(3) by (cases "i = ?k") (auto simp: cached_slot_def)
  ultimately have same: "cached_slot img i b ?surf1"
    using assms(3) by (simp add: cached_slot_def)
  have "s' = Some g \<or> s' = Some (g\<lparr>priv := Some surf\<rparr>) \<or> s' = Some (g\<lparr>priv := Some ?surf1\<rparr>)"
    using assms(1,2)
    by (auto simp: eGbmSurfaceReleaseBuffer_def GetSurf_def SetSurf_def Let_def split: if_splits)
  with same assms(2,3) show ?thesis by auto
qed


lemma acquires_is_acquire: "acquires x c \<Longrightarrow> is_acquire c"
  by (cases c) (simp_all add: acquires_def is_acquire_def)

lemma LockFrontBuffer_acquired:
  assumes l: "eGbmSurfaceLockFrontBuffer e h (Some g) = Some (h', s', r)" and p: "priv g = Some surf"
    and acq: "list_ex (acquires img) (drop (length h) h')"
  obtains h1 surf1 surf2 n1 where "PumpSurfEvents e h surf = Some (h1, surf1, Ret True)"
    "StreamAcquireImageNV e h1 (stream surf1) = (True, img)"
    "LockAcquire e h1 surf1 g = (h', surf2, r)" "s' = Some (g\<lparr>priv := Some surf2\<rparr>)"
    "h1 = h @ n1" "list_all pump_call n1"
proof -
  from l p show ?thesis
  proof (cases rule: LockFrontBuffer_cases)
    case (pump_failed surf1 r1)
    from PumpSurfEvents_post [OF pump_failed(1)] obtain new where "h' = h @ new" "list_all pump_call new"
      by blast
    with acq pump_call_kinds have False by (auto simp: list_ex_iff list_all_iff)
    then show ?thesis ..
  next
    case (acquire h1 surf1 surf2)
    from PumpSurfEvents_post [OF acquire(1)] obtain n1 where n1: "h1 = h @ n1" "list_all pump_call n1"
      by blast
    obtain res img' where a: "StreamAcquireImageNV e h1 (stream surf1) = (res, img')"
      by (cases "StreamAcquireImageNV e h1 (stream surf1)") auto
    from LockAcquire_calls [OF acquire(2) a] obtain rest where
      rest: "h' = h1 @ AcquireImage (stream surf1) EGL_NO_SYNC_KHR res img' # rest"
        "list_all (\<lambda>c. \<not> is_acquire c) rest" by blast
    from acq n1 rest obtain c where c: "acquires img c"
      "c \<in> set n1 \<or> c = AcquireImage (stream surf1) EGL_NO_SYNC_KHR res img' \<or> c \<in> set rest"
      by (auto simp: list_ex_iff)
    from c(1) n1(2) pump_call_kinds have "c \<notin> set n1" by (auto simp: list_all_iff)
    moreover from c(1) rest(2) acquires_is_acquire have "c \<notin> set rest" by (auto simp: list_all_iff)
    ultimately have "c = AcquireImage (stream surf1) EGL_NO_SYNC_KHR res img'" using c(2) by blast
    with c(1) have "res" "img' = img" by (simp_all add: acquires_def)
    with a acquire n1 that show ?thesis by simp
  qed
qed

text \<open>
  C6. Let a LockFrontBuffer call on a surface acquire the frame image \<open>img\<close> and return
  the buffer object \<open>b\<close>, let \<open>b\<close> then be released, and let a second LockFrontBuffer
  call acquire \<open>img\<close> again. If during the second call the pipeline neither removes
  \<open>img\<close> nor creates a new image under the same identity, the second call returns \<open>b\<close>,
  and it makes no export query, no export and no import.
\<close>

theorem lock_release_lock_cache_hit:
  assumes "priv g = Some surf" and "length (images surf) = MAX_STREAM_IMAGES"
    and "img \<noteq> EGL_NO_IMAGE_KHR" and "b \<noteq> NULL"
    and "eGbmSurfaceLockFrontBuffer e h (Some g) = Some (h1, s1, Ret b)"
    and "list_ex (acquires img) (drop (length h) h1)"
    and "eGbmSurfaceReleaseBuffer e h1 s1 b = (h2, s2, r2)"
    and "eGbmSurfaceLockFrontBuffer e h2 s2 = Some (h3, s3, r3)"
    and "list_ex (acquires img) (drop (length h2) h3)"
    and "\<forall>c\<in>set (drop (length h2) h3). \<not> (removes img c \<or> creates img c)"
  shows "r3 = Ret b \<and> \<not> list_ex exports (drop (length h2) h3)"
proof -
  from assms(5,1,6) obtain hp surfp surf1 np where
    p1: "PumpSurfEvents e h surf = Some (hp, surfp, Ret True)"
    and a1: "StreamAcquireImageNV e hp (stream surfp) = (True, img)"
    and l1: "LockAcquire e hp surfp g = (h1, surf1, Ret b)"
    and s1: "s1 = Some (g\<lparr>priv := Some surf1\<rparr>)"
    and np: "hp = h @ np"
    by (rule LockFrontBuffer_acquired)
  from PumpSurfEvents_post [OF p1] assms(2) have lenp: "length (images surfp) = MAX_STREAM_IMAGES"
    by auto
  let ?i = "slot_scan (\<lambda>sl. image sl = img) (images surfp) 0"
  from LockAcquire_fills_cache [OF l1 assms(4) lenp a1] have c1: "cached_slot img ?i b surf1" by simp
  have pg1: "priv (g\<lparr>priv := Some surf1\<rparr>) = Some surf1" by simp
  from assms(7) s1 have rel: "eGbmSurfaceReleaseBuffer e h1 (Some (g\<lparr>priv := Some surf1\<rparr>)) b = (h2, s2, r2)"
    by simp
  from ReleaseBuffer_cached [OF rel pg1 c1] obtain g2 surf2 where
    s2: "s2 = Some g2" "priv g2 = Some surf2" and c2: "cached_slot img ?i b surf2" by blast
  from assms(8) s2 have l2: "eGbmSurfaceLockFrontBuffer e h2 (Some g2) = Some (h3, s3, r3)" by simp
  from l2 s2(2) assms(9) obtain hq surfq surf3 nq where
    p2: "PumpSurfEvents e h2 surf2 = Some (hq, surfq, Ret True)"
    and a2: "StreamAcquireImageNV e hq (stream surfq) = (True, img)"
    and la2: "LockAcquire e hq surfq g2 = (h3, surf3, r3)"
    and nq: "hq = h2 @ nq" "list_all pump_call nq"
    by (rule LockFrontBuffer_acquired)
  from LockAcquire_prefix [OF la2] obtain n3 where n3: "h3 = hq @ n3" by blast
  from assms(10) nq(1) n3 have "\<forall>c\<in>set (drop (length h2) hq). \<not> (removes img c \<or> creates img c)"
    by auto
  from PumpSurfEvents_cached [OF p2 c2 assms(3) this] have cq: "cached_slot img ?i b surfq" .
  from LockAcquire_cache_hit [OF cq assms(4) a2, of g2] la2
  have r3: "r3 = Ret b" and h3: "h3 = hq @ [AcquireImage (stream surfq) EGL_NO_SYNC_KHR True img]"
    by simp_all
  from h3 nq have "drop (length h2) h3 = nq @ [AcquireImage (stream surfq) EGL_NO_SYNC_KHR True img]"
    by simp
  moreover have "\<not> exports (AcquireImage (stream surfq) EGL_NO_SYNC_KHR True img)"
    by (simp add: exports_def)
  ultimately have "\<not> list_ex exports (drop (length h2) h3)"
    using nq(2) pump_call_kinds by (auto simp: list_ex_iff list_all_iff)
  with r3 show ?thesis by simp
qed


lemma LockFrontBuffer_eval:
  assumes "priv g = Some surf" and "PumpSurfEvents e h surf = Some (h1, surf1, Ret True)"
    and "LockAcquire e h1 surf1 g = (h2, surf2, r)"
  shows "eGbmSurfaceLockFrontBuffer e h (Some g) = Some (h2, Some (g\<lparr>priv := Some surf2\<rparr>), r)"
  using assms by (simp add: eGbmSurfaceLockFrontBuffer_def SetSurf_def)

lemma LockAcquire_materialized:
  assumes "StreamAcquireImageNV e h (stream surf) = (True, img)"
    and "i = slot_scan (\<lambda>sl. image sl = img) (images surf) 0" and "i < MAX_STREAM_IMAGES"
    and "bo (images surf ! i) = NULL"
    and "Materialize e (h @ [AcquireImage (stream surf) EGL_NO_SYNC_KHR True img]) g img = (h2, Ret b)"
    and "b \<noteq> NULL" and "length (images surf) = MAX_STREAM_IMAGES"
  shows "LockAcquire e h surf g =
           (h2, surf\<lparr>freeImages := False,
                      images := (images surf)[i := (images surf ! i)\<lparr>locked := True, bo := b\<rparr>]\<rparr>,
            Ret b)"
proof -
  have "((images surf)[i := (images surf ! i)\<lparr>locked := True\<rparr>] ! i)\<lparr>bo := b\<rparr>
          = (images surf ! i)\<lparr>locked := True, bo := b\<rparr>"
    using assms(3,7) by simp
  with assms show ?thesis
    by (simp add: LockAcquire_def Let_def slot_update_nth)
qed

lemma first_lock_run:
  "eGbmSurfaceLockFrontBuffer (scripted script_lock_twice) [] (Some (window (Some surface_one_image)))
     = Some (log_first_lock, Some (window (Some surface_locked)), Ret 41)"
proof -
  let ?e = "scripted script_lock_twice"
  let ?s0 = "surface_one_image\<lparr>freeImages := False\<rparr>"
  let ?h1 = "[QueryEvent 0 EGL_TRUE EGL_STREAM_IMAGE_AVAILABLE_NV 0]"
  have pg: "priv (window (Some surface_one_image)) = Some surface_one_image"
    by (simp add: window_def)
  have q: "QueryStreamConsumerEventNV ?e [] (stream ?s0) = (EGL_TRUE, EGL_STREAM_IMAGE_AVAILABLE_NV, 0)"
    by (simp add: scripted_simps script_lock_twice_def)
  have st: "stream ?s0 = 0" "stream surface_one_image = 0"
    by (simp_all add: surface_one_image_def scripted_simps)
  have p: "PumpSurfEvents ?e [] surface_one_image = Some (?h1, surface_one_image, Ret True)"
    unfolding PumpSurfEvents_def using PumpLoop_available [OF q] st
    by (simp add: surface_one_image_def)
  have a: "StreamAcquireImageNV ?e ?h1 (stream surface_one_image) = (True, 11)"
    by (simp add: scripted_simps script_lock_twice_def)
  have i: "0 = slot_scan (\<lambda>sl. image sl = 11) (images surface_one_image) 0"
    by (simp add: slot_scan.simps surface_one_image_def scripted_simps)
  have b0: "bo (images surface_one_image ! 0) = NULL"
    by (simp add: surface_one_image_def scripted_simps)
  have m: "Materialize ?e (?h1 @ [AcquireImage (stream surface_one_image) EGL_NO_SYNC_KHR True 11])
             (window (Some surface_one_image)) 11 = (log_first_lock, Ret 41)"
    by (simp add: Materialize_def Let_def scripted_simps script_lock_twice_def window_def
          log_first_lock_def import_buf_def st)
  note l = LockAcquire_materialized [OF a i _ b0 m]
  have "eGbmSurfaceLockFrontBuffer ?e [] (Some (window (Some surface_one_image)))
          = Some (log_first_lock,
                  Some ((window (Some surface_one_image))\<lparr>priv := Some (surface_one_image
                     \<lparr>freeImages := False,
                      images := (images surface_one_image)
                        [0 := (images surface_one_image ! 0)\<lparr>locked := True, bo := 41\<rparr>]\<rparr>)\<rparr>),
                  Ret 41)"
    by (rule LockFrontBuffer_eval [OF pg p l]) (simp_all add: surface_one_image_def scripted_simps)
  then show ?thesis
    by (simp add: window_def surface_one_image_def surface_locked_def scripted_simps)
qed

lemma release_run:
  "eGbmSurfaceReleaseBuffer (scripted script_lock_twice) log_first_lock
     (Some (window (Some surface_locked))) 41
   = (log_first_lock @ [ReleaseImage 0 11 EGL_NO_SYNC_KHR], Some (window (Some surface_cached)), Ret ())"
  by (simp add: eGbmSurfaceReleaseBuffer_def GetSurf_def SetSurf_def Let_def window_def
        slot_scan.simps surface_locked_def surface_cached_def scripted_simps)

lemma second_lock_run:
  "eGbmSurfaceLockFrontBuffer (scripted script_lock_twice)
     (log_first_lock @ [ReleaseImage 0 11 EGL_NO_SYNC_KHR]) (Some (window (Some surface_cached)))
     = Some (log_first_lock @ [ReleaseImage 0 11 EGL_NO_SYNC_KHR,
                               QueryEvent 0 EGL_TRUE EGL_STREAM_IMAGE_AVAILABLE_NV 0,
                               AcquireImage 0 EGL_NO_SYNC_KHR True 11],
             Some (window (Some surface_locked)), Ret 41)"
proof -
  let ?e = "scripted script_lock_twice"
  let ?h2 = "log_first_lock @ [ReleaseImage 0 11 EGL_NO_SYNC_KHR]"
  let ?s0 = "surface_cached\<lparr>freeImages := False\<rparr>"
  let ?s1 = "surface_cached\<lparr>freeImages := True\<rparr>"
  let ?hq = "?h2 @ [QueryEvent 0 EGL_TRUE EGL_STREAM_IMAGE_AVAILABLE_NV 0]"
  have pg: "priv (window (Some surface_cached)) = Some surface_cached"
    by (simp add: window_def)
  have q: "QueryStreamConsumerEventNV ?e ?h2 (stream ?s0) = (EGL_TRUE, EGL_STREAM_IMAGE_AVAILABLE_NV, 0)"
    by (simp add: scripted_simps script_lock_twice_def log_first_lock_def)
  have st: "stream ?s0 = 0" "stream ?s1 = 0" by (simp_all add: surface_cached_def scripted_simps)
  have p: "PumpSurfEvents ?e ?h2 surface_cached = Some (?hq, ?s1, Ret True)"
    unfolding PumpSurfEvents_def using PumpLoop_available [OF q] st
    by (simp add: surface_cached_def)
  have c: "cached_slot 11 0 41 ?s1"
    by (simp add: cached_slot_def slot_scan.simps surface_cached_def scripted_simps)
  have a: "StreamAcquireImageNV ?e ?hq (stream ?s1) = (True, 11)"
    by (simp add: scripted_simps script_lock_twice_def log_first_lock_def)
  have b: "(41::nat) \<noteq> NULL" by simp
  note l = LockAcquire_cache_hit [OF c b a, of "window (Some surface_cached)"]
  from LockFrontBuffer_eval [OF pg p l] st
  show ?thesis
    by (simp add: window_def surface_cached_def surface_locked_def scripted_simps)
qed

theorem lock_release_lock_cache_hit_witness:
  "eGbmSurfaceLockFrontBuffer (scripted script_lock_twice)
     (log_first_lock @ [ReleaseImage 0 11 EGL_NO_SYNC_KHR]) (Some (window (Some surface_cached)))
     = Some (log_first_lock @ [ReleaseImage 0 11 EGL_NO_SYNC_KHR,
                               QueryEvent 0 EGL_TRUE EGL_STREAM_IMAGE_AVAILABLE_NV 0,
                               AcquireImage 0 EGL_NO_SYNC_KHR True 11],
             Some (window (Some surface_locked)), Ret 41)
   \<and> \<not> list_ex exports
        (drop (length (log_first_lock @ [ReleaseImage 0 11 EGL_NO_SYNC_KHR]))
           (log_first_lock @ [ReleaseImage 0 11 EGL_NO_SYNC_KHR,
                              QueryEvent 0 EGL_TRUE EGL_STREAM_IMAGE_AVAILABLE_NV 0,
                              AcquireImage 0 EGL_NO_SYNC_KHR True 11]))"
proof -
  have 1: "priv (window (Some surface_one_image)) = Some surface_one_image" by (simp add: window_def)
  have 2: "length (images surface_one_image) = MAX_STREAM_IMAGES"
    by (simp add: surface_one_image_def scripted_simps)
  have 3: "(11::nat) \<noteq> EGL_NO_IMAGE_KHR" and 4: "(41::nat) \<noteq> NULL" by simp_all
  have 6: "list_ex (acquires 11) (drop (length ([]::call list)) log_first_lock)"
    by (simp add: log_first_lock_def acquires_def)
  have 9: "list_ex (acquires 11)
        (drop (length (log_first_lock @ [ReleaseImage 0 11 EGL_NO_SYNC_KHR]))
           (log_first_lock @ [ReleaseImage 0 11 EGL_NO_SYNC_KHR,
                              QueryEvent 0 EGL_TRUE EGL_STREAM_IMAGE_AVAILABLE_NV 0,
                              AcquireImage 0 EGL_NO_SYNC_KHR True 11]))"
    by (simp add: acquires_def)
  have 10: "\<forall>c\<in>set (drop (length (log_first_lock @ [ReleaseImage 0 11 EGL_NO_SYNC_KHR]))
           (log_first_lock @ [ReleaseImage 0 11 EGL_NO_SYNC_KHR,
                              QueryEvent 0 EGL_TRUE EGL_STREAM_IMAGE_AVAILABLE_NV 0,
                              AcquireImage 0 EGL_NO_SYNC_KHR True 11])).
            \<not> (removes 11 c \<or> creates 11 c)"
    by (simp add: removes_def creates_def)
  from lock_release_lock_cache_hit [OF 1 2 3 4 first_lock_run 6 release_run second_lock_run 9 10]
    second_lock_run
  show ?thesis by blast
qed

section \<open>Failures of surface creation\<close>

text \<open>
  A failure before the surface is allocated reaches \<open>fail\<close> with \<open>surf == NULL\<close>;
  \<open>FreeSurface\<close> then does nothing, and the reference that \<open>eGbmRefHandle\<close> took
  on the display is still held when the call returns.
\<close>

lemma create_early_failure_keeps_display_ref:
  assumes "eGbmRefHandle e h d"
    and "egl_GetConfigAttrib e (h @ [RefHandle d True]) config = (res, surfType)"
    and "\<not> res \<or> surfType AND EGL_STREAM_BIT_KHR = 0
         \<or> \<not> calloc e (h @ [RefHandle d True, GetConfigAttrib config res surfType])"
    and "eGbmCreatePlatformWindowSurfaceHook e h d config (Some g) = Some (h', s', r)"
  shows "r = Ret None \<and> display_refs d h' = display_refs d h + 1"
  using assms
  by (auto simp: eGbmCreatePlatformWindowSurfaceHook_def Let_def CreateFail_def FreeSurface_def
        display_refs_def split: if_splits)

text \<open>
  C7, where the code departs from it. Creation on a resolvable display and a native
  window, with a configuration whose surface type lacks \<open>EGL_STREAM_BIT_KHR\<close>: the call
  reports \<open>EGL_BAD_CONFIG\<close> and returns no surface, but it never calls
  \<open>eGbmUnrefObject\<close>, so the reference taken on the display stays. On the sibling path,
  where the stream cannot be created after the surface was allocated, \<open>FreeSurface\<close>
  gives the reference back (and the error reported is \<open>EGL_SUCCESS\<close>).
\<close>

theorem create_bad_config_leaks_display_ref:
  "eGbmCreatePlatformWindowSurfaceHook (scripted script_bad_config) [] 1 2 (Some (window None))
     = Some ([RefHandle 1 True, GetConfigAttrib 2 True 0, SetError EGL_BAD_CONFIG],
             Some (window None), Ret None)
   \<and> display_refs 1 [RefHandle 1 True, GetConfigAttrib 2 True 0, SetError EGL_BAD_CONFIG] = 1
   \<and> eGbmCreatePlatformWindowSurfaceHook (scripted script_no_stream) [] 1 2 (Some (window None))
     = Some ([RefHandle 1 True, GetConfigAttrib 2 True EGL_STREAM_BIT_KHR, Calloc True,
              CreateStream EGL_NO_STREAM_KHR, UnrefObject 1, FreeObj, SetError EGL_SUCCESS],
             Some (window None), Ret None)
   \<and> display_refs 1 [RefHandle 1 True, GetConfigAttrib 2 True EGL_STREAM_BIT_KHR, Calloc True,
              CreateStream EGL_NO_STREAM_KHR, UnrefObject 1, FreeObj, SetError EGL_SUCCESS] = 0"
  by (simp add: eGbmCreatePlatformWindowSurfaceHook_def Let_def CreateFail_def FreeSurface_def
        display_refs_def scripted_sel script_bad_config_def script_no_stream_def script0_def
        new_surface_def replicate_MAX upt_rec)

text \<open>The references on the display that the failed call of C7 holds when it returns.\<close>

theorem create_bad_config_leaks_display_ref_witness:
  "display_refs 1
     (fst (the (eGbmCreatePlatformWindowSurfaceHook (scripted script_bad_config) [] 1 2
                  (Some (window None))))) = 1"
  using create_bad_config_leaks_display_ref by simp


section \<open>The reference count\<close>

text \<open>
  Either the object is alive (count positive, entry in the table, never destroyed), or
  it is dead (count zero or below, no entry, destroyed once).
\<close>

lemma registry_step_invariant:
  assumes "(0 < ro_refCount ob \<and> ro_live ob \<and> ro_destroyed ob = 0)
           \<or> (ro_refCount ob \<le> 0 \<and> \<not> ro_live ob \<and> ro_destroyed ob = 1)"
  shows "(0 < ro_refCount (registry_step op ob) \<and> ro_live (registry_step op ob)
            \<and> ro_destroyed (registry_step op ob) = 0)
         \<or> (ro_refCount (registry_step op ob) \<le> 0 \<and> \<not> ro_live (registry_step op ob)
            \<and> ro_destroyed (registry_step op ob) = 1)"
  using assms
  by (cases op)
     (auto simp: registry_unref_def registry_resolveAndRef_def registry_unregister_def Let_def)

lemma registry_run_invariant:
  assumes "(0 < ro_refCount ob \<and> ro_live ob \<and> ro_destroyed ob = 0)
           \<or> (ro_refCount ob \<le> 0 \<and> \<not> ro_live ob \<and> ro_destroyed ob = 1)"
  shows "(0 < ro_refCount (registry_run ops ob) \<and> ro_live (registry_run ops ob)
            \<and> ro_destroyed (registry_run ops ob) = 0)
         \<or> (ro_refCount (registry_run ops ob) \<le> 0 \<and> \<not> ro_live (registry_run ops ob)
            \<and> ro_destroyed (registry_run ops ob) = 1)"
  using assms
proof (induction ops arbitrary: ob)
  case Nil
  then show ?case by simp
next
  case (Cons op ops)
  from registry_step_invariant [OF Cons.prems] have
    "(0 < ro_refCount (registry_step op ob) \<and> ro_live (registry_step op ob)
            \<and> ro_destroyed (registry_step op ob) = 0)
         \<or> (ro_refCount (registry_step op ob) \<le> 0 \<and> \<not> ro_live (registry_step op ob)
            \<and> ro_destroyed (registry_step op ob) = 1)" .
  from Cons.IH [OF this] show ?case by simp
qed

lemma registry_run_append:
  "registry_run (pre @ [op]) ob = registry_step op (registry_run pre ob)"
  by (induction pre arbitrary: ob) simp_all

lemma registry_step_fires:
  assumes "(0 < ro_refCount ob \<and> ro_live ob \<and> ro_destroyed ob = 0)
           \<or> (ro_refCount ob \<le> 0 \<and> \<not> ro_live ob \<and> ro_destroyed ob = 1)"
  shows "ro_destroyed (registry_step op ob) =
           ro_destroyed ob + (if ro_refCount ob = 1 \<and> ro_refCount (registry_step op ob) = 0
                              then 1 else 0)"
  using assms
  by (cases op)
     (auto simp: registry_unref_def registry_resolveAndRef_def registry_unregister_def Let_def)

text \<open>
  C8. Take an object with at least one reference, register it, and apply any sequence of
  \<open>unref\<close>, \<open>resolveAndRef\<close> and \<open>unregister\<close>. The destroy function has then been called
  once if the count has reached zero and not at all otherwise; and at every step of the
  sequence it is called exactly when that step takes the count from one to zero.
\<close>

theorem registry_destroys_once_at_zero:
  assumes "1 \<le> n"
  shows "ro_destroyed (registry_run ops (registered_object n))
           = (if ro_refCount (registry_run ops (registered_object n)) \<le> 0 then 1 else 0)
       \<and> (\<forall>pre op. ro_destroyed (registry_run (pre @ [op]) (registered_object n))
             = ro_destroyed (registry_run pre (registered_object n))
               + (if ro_refCount (registry_run pre (registered_object n)) = 1
                     \<and> ro_refCount (registry_run (pre @ [op]) (registered_object n)) = 0
                  then 1 else 0))"
proof -
  have init: "(0 < ro_refCount (registered_object n) \<and> ro_live (registered_object n)
                 \<and> ro_destroyed (registered_object n) = 0)
              \<or> (ro_refCount (registered_object n) \<le> 0 \<and> \<not> ro_live (registered_object n)
                 \<and> ro_destroyed (registered_object n) = 1)"
    using assms by (simp add: registered_object_def registry_register_def)
  have a: "ro_destroyed (registry_run ops (registered_object n))
           = (if ro_refCount (registry_run ops (registered_object n)) \<le> 0 then 1 else 0)"
    using registry_run_invariant [OF init, of ops] by auto
  have b: "ro_destroyed (registry_run (pre @ [op]) (registered_object n))
             = ro_destroyed (registry_run pre (registered_object n))
               + (if ro_refCount (registry_run pre (registered_object n)) = 1
                     \<and> ro_refCount (registry_run (pre @ [op]) (registered_object n)) = 0
                  then 1 else 0)" for pre op
    unfolding registry_run_append
    by (rule registry_step_fires [OF registry_run_invariant [OF init]])
  from a b show ?thesis by blast
qed

theorem registry_destroys_once_at_zero_witness:
  "ro_destroyed (registry_run [ResolveAndRef, Unref, Unref, ResolveAndRef, Unref] (registered_object 1)) = 1
   \<and> ro_destroyed (registry_run [ResolveAndRef, Unref] (registered_object 1)) = 0
   \<and> ro_destroyed (registry_run ([ResolveAndRef, Unref] @ [Unref]) (registered_object 1)) = 1"
proof -
  have n: "(1::int) \<le> 1" by simp
  have 1: "ro_refCount (registry_run [ResolveAndRef, Unref, Unref, ResolveAndRef, Unref] (registered_object 1)) = -1"
    by (simp add: registered_object_def registry_register_def registry_unref_def
          registry_resolveAndRef_def Let_def)
  have 2: "ro_refCount (registry_run [ResolveAndRef, Unref] (registered_object 1)) = 1"
    by (simp add: registered_object_def registry_register_def registry_unref_def
          registry_resolveAndRef_def Let_def)
  have 3: "ro_refCount (registry_run ([ResolveAndRef, Unref] @ [Unref]) (registered_object 1)) = 0"
    by (simp add: registered_object_def registry_register_def registry_unref_def
          registry_resolveAndRef_def Let_def)
  note t1 = registry_destroys_once_at_zero [OF n, of "[ResolveAndRef, Unref, Unref, ResolveAndRef, Unref]"]
  note t2 = registry_destroys_once_at_zero [OF n, of "[ResolveAndRef, Unref]"]
  from t1 1 have a: "ro_destroyed (registry_run [ResolveAndRef, Unref, Unref, ResolveAndRef, Unref] (registered_object 1)) = 1"
    by simp
  from t2 2 have b: "ro_destroyed (registry_run [ResolveAndRef, Unref] (registered_object 1)) = 0"
    by simp
  from t2 have "ro_destroyed (registry_run ([ResolveAndRef, Unref] @ [Unref]) (registered_object 1))
             = ro_destroyed (registry_run [ResolveAndRef, Unref] (registered_object 1))
               + (if ro_refCount (registry_run [ResolveAndRef, Unref] (registered_object 1)) = 1
                     \<and> ro_refCount (registry_run ([ResolveAndRef, Unref] @ [Unref]) (registered_object 1)) = 0
                  then 1 else 0)"
    by blast
  with b 2 3 have c: "ro_destroyed (registry_run ([ResolveAndRef, Unref] @ [Unref]) (registered_object 1)) = 1"
    by simp
  from a b c show ?thesis by blast
qed

end
